theory Spec2Isabelle
  imports Main "HOL-Library.Char_ord" "HOL-Library.List_Lexorder"
begin

section \<open>JavaScript values of a parsed OpenAPI document\<close>

text \<open>
  The generator works on the value a YAML/JSON parser returns: primitives, and objects and
  arrays that live in the JavaScript heap and are reached through references. Dereferencing
  a document may make two places share one object, or make an object reach itself, so the
  heap is explicit: a store from addresses to objects, and a value \<open>Ref a\<close> points into it.

  Modelling boundary. An object is the list of its own enumerable entries, in the order
  in which JavaScript enumerates them (a parser builds objects with distinct keys; nothing
  below depends on it). Every object of a parsed document is a plain object or an array, so
  it also inherits the members of \<open>Object.prototype\<close>, and an array those of
  \<open>Array.prototype\<close>: the \<open>in\<close> operator sees their names (\<open>constructor\<close>,
  \<open>toString\<close>, ...), and so does the test \<open>!rec[key]\<close> on a record that the program
  builds (section on the Path Grouper below). A read \<open>v[k]\<close> of a document value returns
  own properties only: the keys the program reads are fixed names that no prototype has, own
  keys taken from an enumeration, and the segments of a reference, where an inherited member
  is a function or a prototype object, in which the Finder finds nothing, as it does in
  \<open>undefined\<close>. Numbers are integers, since only their truthiness and their rendering as
  a key are observed. Strings are lists of characters; the default order of
  \<open>Array.prototype.sort\<close>, the lexicographic order of the code units, is the lexicographic
  order of the characters.
\<close>

datatype jsval = Undefined | Null | Bool bool | Num int | Str string | Ref nat

datatype jsobj = Arr "jsval list" | Obj "(string \<times> jsval) list"

type_synonym heap = "nat \<Rightarrow> jsobj"

text \<open>
  A run of a function either returns, or throws a \<open>TypeError\<close>, or leaves the fragment of
  JavaScript that is modelled (\<open>Unsupported\<close>: an object or a number of more than 21
  digits used as a property key, a target field named \<open>__proto__\<close> in a scan).
\<close>

datatype failure = TypeError | Unsupported

fun truthy :: "jsval \<Rightarrow> bool" where
  "truthy Undefined = False"
| "truthy Null = False"
| "truthy (Bool b) = b"
| "truthy (Num n) = (n \<noteq> 0)"
| "truthy (Str s) = (s \<noteq> [])"
| "truthy (Ref a) = True"

fun typeof :: "jsval \<Rightarrow> string" where
  "typeof Undefined = ''undefined''"
| "typeof Null = ''object''"
| "typeof (Bool b) = ''boolean''"
| "typeof (Num n) = ''number''"
| "typeof (Str s) = ''string''"
| "typeof (Ref a) = ''object''"

fun isArray :: "heap \<Rightarrow> jsval \<Rightarrow> bool" where
  "isArray h (Ref a) = (case h a of Arr xs \<Rightarrow> True | Obj kvs \<Rightarrow> False)"
| "isArray h v = False"

text \<open>Decimal rendering of an array index, the property key of an element.\<close>

definition digit :: "nat \<Rightarrow> char" where
  "digit n = ''0123456789'' ! n"

function dec :: "nat \<Rightarrow> string" where
  "dec n = (if n < 10 then [digit n] else dec (n div 10) @ [digit (n mod 10)])"
  by pat_completeness auto
termination
  by (relation "measure id") auto

definition indexed :: "'a list \<Rightarrow> (string \<times> 'a) list" where
  "indexed xs = zip (map dec [0..<length xs]) xs"

text \<open>The own enumerable entries of a value, in the order \<open>for (k in v)\<close> visits them.\<close>

fun entries :: "heap \<Rightarrow> jsval \<Rightarrow> (string \<times> jsval) list" where
  "entries h (Ref a) = (case h a of Arr xs \<Rightarrow> indexed xs | Obj kvs \<Rightarrow> kvs)"
| "entries h (Str s) = indexed (map (\<lambda>c. Str [c]) s)"
| "entries h v = []"

definition enum_keys :: "heap \<Rightarrow> jsval \<Rightarrow> string list" where
  "enum_keys h v = map fst (entries h v)"

definition has_length :: "heap \<Rightarrow> jsval \<Rightarrow> nat option" where
  "has_length h v =
     (case v of
        Ref a \<Rightarrow> (case h a of Arr xs \<Rightarrow> Some (length xs) | Obj kvs \<Rightarrow> None)
      | Str s \<Rightarrow> Some (length s)
      | _ \<Rightarrow> None)"

text \<open>\<open>v[k]\<close>: reading a property of \<open>undefined\<close> or \<open>null\<close> throws.\<close>

definition get_prop :: "heap \<Rightarrow> jsval \<Rightarrow> string \<Rightarrow> failure + jsval" where
  "get_prop h v k =
     (if v = Undefined \<or> v = Null then Inl TypeError
      else case map_of (entries h v) k of
             Some x \<Rightarrow> Inr x
           | None \<Rightarrow>
               (case has_length h v of
                  Some n \<Rightarrow> if k = ''length'' then Inr (Num (int n)) else Inr Undefined
                | None \<Rightarrow> Inr Undefined))"

text \<open>
  The string-named members of \<open>Object.prototype\<close> and of \<open>Array.prototype\<close> (ECMAScript
  2023, with the accessors of Annex B that Node.js has). None of them is enumerable.
\<close>

definition Object_prototype :: "string list" where
  "Object_prototype =
     [''constructor'', ''__defineGetter__'', ''__defineSetter__'', ''hasOwnProperty'',
      ''__lookupGetter__'', ''__lookupSetter__'', ''isPrototypeOf'', ''propertyIsEnumerable'',
      ''toString'', ''valueOf'', ''__proto__'', ''toLocaleString'']"

definition Array_prototype :: "string list" where
  "Array_prototype =
     [''constructor'', ''at'', ''concat'', ''copyWithin'', ''fill'', ''find'',
      ''findIndex'', ''findLast'', ''findLastIndex'', ''lastIndexOf'', ''pop'', ''push'',
      ''reverse'', ''shift'', ''unshift'', ''slice'', ''sort'', ''splice'', ''includes'',
      ''indexOf'', ''join'', ''keys'', ''entries'', ''values'', ''forEach'', ''filter'',
      ''flat'', ''flatMap'', ''map'', ''every'', ''some'', ''reduce'', ''reduceRight'',
      ''toReversed'', ''toSorted'', ''toSpliced'', ''with'', ''toLocaleString'', ''toString'']"

text \<open>The names a value of the heap inherits through its prototype chain.\<close>

definition inherited_names :: "heap \<Rightarrow> jsval \<Rightarrow> string list" where
  "inherited_names h v =
     (case v of
        Ref a \<Rightarrow> (case h a of Arr xs \<Rightarrow> Array_prototype @ Object_prototype
                            | Obj kvs \<Rightarrow> Object_prototype)
      | _ \<Rightarrow> [])"

text \<open>\<open>Object.hasOwn(v, k)\<close>: the enumerable keys, and the \<open>length\<close> of an array.\<close>

definition has_own :: "heap \<Rightarrow> string \<Rightarrow> jsval \<Rightarrow> bool" where
  "has_own h k v = (k \<in> set (enum_keys h v) \<or> (has_length h v \<noteq> None \<and> k = ''length''))"

text \<open>
  \<open>k in v\<close>: throws unless \<open>v\<close> is an object; true for an own property and for an
  inherited one.
\<close>

definition has_prop :: "heap \<Rightarrow> string \<Rightarrow> jsval \<Rightarrow> failure + bool" where
  "has_prop h k v =
     (case v of
        Ref a \<Rightarrow> Inr (has_own h k v \<or> k \<in> set (inherited_names h v))
      | _ \<Rightarrow> Inl TypeError)"

text \<open>\<open>for (x of v)\<close> and \<open>...v\<close>: arrays and strings are iterable.\<close>

definition iterate :: "heap \<Rightarrow> jsval \<Rightarrow> failure + jsval list" where
  "iterate h v =
     (case v of
        Ref a \<Rightarrow> (case h a of Arr xs \<Rightarrow> Inr xs | Obj kvs \<Rightarrow> Inl TypeError)
      | Str s \<Rightarrow> Inr (map (\<lambda>c. Str [c]) s)
      | _ \<Rightarrow> Inl TypeError)"

subsection \<open>Sets of strings\<close>

text \<open>
  A JavaScript \<open>Set\<close> keeps its members in insertion order, each once.
  \<open>new_Set xs\<close> is \<open>[...new Set(xs)]\<close>.
\<close>

definition set_add :: "string list \<Rightarrow> string \<Rightarrow> string list" where
  "set_add s x = (if x \<in> set s then s else s @ [x])"

definition new_Set :: "string list \<Rightarrow> string list" where
  "new_Set xs = foldl set_add [] xs"

section \<open>The Schema Field Finder of generate-types.ts\<close>

text \<open>
  \<open>findFieldsInSchema(schema, targetFields, depth, debug, context)\<close>. The model returns what
  the function returns, the list of the fields found, together with the lines it writes to
  the console. (The repository also holds two earlier copies of the generator, whose Finder
  has neither the depth counter nor the rules for open schemas; they are not modelled.)
\<close>

datatype location = Request | Response

record log_context =
  ctx_path :: "string option"
  ctx_method :: "string option"
  ctx_location :: "location option"

definition no_context :: log_context where
  "no_context = \<lparr>ctx_path = None, ctx_method = None, ctx_location = None\<rparr>"

text \<open>
  What the Finder writes to the console: \<open>logFieldDetection\<close> reports a field found as a
  key (the context's path, method and location, the field, whether it is nested), the other
  lines report a field that an open schema may hold, with the rule that fired. The sink
  formats the lines.
\<close>

datatype log_entry =
    Found log_context string bool
  | Potential log_context string string

definition opt_truthy :: "string option \<Rightarrow> bool" where
  "opt_truthy s = (case s of None \<Rightarrow> False | Some x \<Rightarrow> x \<noteq> [])"

text \<open>\<open>debug && context.path && context.method && context.location\<close>\<close>

definition logging :: "bool \<Rightarrow> log_context \<Rightarrow> bool" where
  "logging debug ctx =
     (debug \<and> opt_truthy (ctx_path ctx) \<and> opt_truthy (ctx_method ctx) \<and> ctx_location ctx \<noteq> None)"

definition logFieldDetection :: "log_context \<Rightarrow> bool \<Rightarrow> string \<Rightarrow> log_entry" where
  "logFieldDetection ctx nested field = Found ctx field nested"

definition logPotential :: "log_context \<Rightarrow> string \<Rightarrow> string \<Rightarrow> log_entry" where
  "logPotential ctx rule field = Potential ctx field rule"

type_synonym findings = "string list \<times> log_entry list"

text \<open>
  Statements run one after the other; each pushes to \<open>foundFields\<close> and to the console,
  and the first one that throws ends the run.
\<close>

fun seqAll :: "(failure + findings) list \<Rightarrow> failure + findings" where
  "seqAll [] = Inr ([], [])"
| "seqAll (m # ms) =
     (case m of
        Inl e \<Rightarrow> Inl e
      | Inr r \<Rightarrow>
          (case seqAll ms of
             Inl e \<Rightarrow> Inl e
           | Inr rs \<Rightarrow> Inr (fst r @ fst rs, snd r @ snd rs)))"

text \<open>The first loop over \<open>targetFields\<close>: the fields that are keys of \<open>schema.properties\<close>.\<close>

definition directFields ::
  "heap \<Rightarrow> jsval \<Rightarrow> string list \<Rightarrow> nat \<Rightarrow> bool \<Rightarrow> log_context \<Rightarrow> failure + findings" where
  "directFields h props targetFields depth debug ctx =
     seqAll (map (\<lambda>field.
        case has_prop h field props of
          Inl e \<Rightarrow> Inl e
        | Inr present \<Rightarrow>
            if present
            then Inr ([field], if logging debug ctx then [logFieldDetection ctx (depth > 0) field] else [])
            else Inr ([], [])) targetFields)"

text \<open>\<open>foundFields.push(...targetFields)\<close> with its debug lines.\<close>

definition allTargets :: "string list \<Rightarrow> bool \<Rightarrow> log_context \<Rightarrow> string \<Rightarrow> failure + findings" where
  "allTargets targetFields debug ctx rule =
     Inr (targetFields, if logging debug ctx then map (logPotential ctx rule) targetFields else [])"

definition combinedSchemas :: "string list" where
  "combinedSchemas = [''allOf'', ''oneOf'', ''anyOf'']"

function findFieldsInSchema ::
  "heap \<Rightarrow> jsval \<Rightarrow> string list \<Rightarrow> nat \<Rightarrow> bool \<Rightarrow> log_context \<Rightarrow> failure + findings" where
  "findFieldsInSchema h schema targetFields depth debug ctx =
    (if \<not> truthy schema \<or> typeof schema \<noteq> ''object'' then Inr ([], [])
     else if depth > 10 then Inr ([], [])
     else
       (case seqAll
          [ \<comment> \<open>direct properties, then the value of every property\<close>
            (case get_prop h schema ''properties'' of
               Inl e \<Rightarrow> Inl e
             | Inr props \<Rightarrow>
                 if truthy props \<and> typeof props = ''object''
                 then seqAll
                   [ directFields h props targetFields depth debug ctx,
                     seqAll (map (\<lambda>prop.
                       case get_prop h props prop of
                         Inl e \<Rightarrow> Inl e
                       | Inr sub \<Rightarrow> findFieldsInSchema h sub targetFields (depth + 1) debug ctx)
                       (enum_keys h props)) ]
                 else Inr ([], [])),
            \<comment> \<open>array items\<close>
            (case get_prop h schema ''items'' of
               Inl e \<Rightarrow> Inl e
             | Inr items \<Rightarrow>
                 if truthy items
                 then findFieldsInSchema h items targetFields (depth + 1) debug ctx
                 else Inr ([], [])),
            \<comment> \<open>object schemas without explicit properties\<close>
            (case get_prop h schema ''type'' of
               Inl e \<Rightarrow> Inl e
             | Inr ty \<Rightarrow>
                 (case get_prop h schema ''properties'' of
                    Inl e \<Rightarrow> Inl e
                  | Inr props \<Rightarrow>
                      if ty = Str ''object'' \<and> \<not> truthy props
                      then allTargets targetFields debug ctx ''dynamic object''
                      else Inr ([], []))),
            \<comment> \<open>additionalProperties\<close>
            (case get_prop h schema ''additionalProperties'' of
               Inl e \<Rightarrow> Inl e
             | Inr ap \<Rightarrow>
                 if truthy ap
                 then
                   if typeof ap = ''object''
                   then findFieldsInSchema h ap targetFields (depth + 1) debug ctx
                   else if ap = Bool True
                   then allTargets targetFields debug ctx ''additional properties''
                   else Inr ([], [])
                 else Inr ([], [])),
            \<comment> \<open>combined schemas\<close>
            seqAll (map (\<lambda>key.
              case get_prop h schema key of
                Inl e \<Rightarrow> Inl e
              | Inr subs \<Rightarrow>
                  if truthy subs \<and> isArray h subs
                  then
                    (case iterate h subs of
                       Inl e \<Rightarrow> Inl e
                     | Inr subSchemas \<Rightarrow>
                         seqAll (map (\<lambda>subSchema.
                           findFieldsInSchema h subSchema targetFields (depth + 1) debug ctx)
                           subSchemas))
                  else Inr ([], [])) combinedSchemas),
            \<comment> \<open>patternProperties\<close>
            (case get_prop h schema ''patternProperties'' of
               Inl e \<Rightarrow> Inl e
             | Inr pp \<Rightarrow>
                 if truthy pp \<and> typeof pp = ''object''
                 then seqAll (map (\<lambda>pattern.
                   case get_prop h pp pattern of
                     Inl e \<Rightarrow> Inl e
                   | Inr sub \<Rightarrow> findFieldsInSchema h sub targetFields (depth + 1) debug ctx)
                   (enum_keys h pp))
                 else Inr ([], [])),
            \<comment> \<open>discriminator\<close>
            (case get_prop h schema ''discriminator'' of
               Inl e \<Rightarrow> Inl e
             | Inr disc \<Rightarrow>
                 if truthy disc
                 then
                   (case get_prop h disc ''mapping'' of
                      Inl e \<Rightarrow> Inl e
                    | Inr mapping \<Rightarrow>
                        if truthy mapping
                        then allTargets targetFields debug ctx ''discriminator''
                        else Inr ([], []))
                 else Inr ([], [])),
            \<comment> \<open>free-form objects\<close>
            (case get_prop h schema ''type'' of
               Inl e \<Rightarrow> Inl e
             | Inr ty \<Rightarrow>
                 (case get_prop h schema ''properties'' of
                    Inl e \<Rightarrow> Inl e
                  | Inr props \<Rightarrow>
                      (case get_prop h schema ''additionalProperties'' of
                         Inl e \<Rightarrow> Inl e
                       | Inr ap \<Rightarrow>
                           (case get_prop h schema ''patternProperties'' of
                              Inl e \<Rightarrow> Inl e
                            | Inr pp \<Rightarrow>
                                if ty = Str ''object'' \<and> \<not> truthy props \<and> \<not> truthy ap \<and> \<not> truthy pp
                                then allTargets targetFields debug ctx ''free-form object''
                                else Inr ([], []))))) ]
        of
          Inl e \<Rightarrow> Inl e
        | Inr r \<Rightarrow> Inr (new_Set (fst r), snd r)))"
  by pat_completeness auto
termination
  by (relation "measure (\<lambda>(h, schema, targetFields, depth, debug, ctx). 11 - depth)") auto

declare findFieldsInSchema.simps [simp del]

section \<open>The Schema Field Finder of simple-generate-types.ts\<close>

text \<open>\<open>s.replace(pat, rep)\<close> with a string pattern: the first occurrence only.\<close>

fun replace_first :: "string \<Rightarrow> string \<Rightarrow> string \<Rightarrow> string" where
  "replace_first pat rep [] = (if pat = [] then rep else [])"
| "replace_first pat rep (c # cs) =
     (if take (length pat) (c # cs) = pat then rep @ drop (length pat) (c # cs)
      else c # replace_first pat rep cs)"

text \<open>\<open>s.split(c)\<close> for a separator of one character.\<close>

fun split_on :: "char \<Rightarrow> string \<Rightarrow> string list" where
  "split_on c [] = [[]]"
| "split_on c (x # xs) =
     (if x = c then [] # split_on c xs
      else case split_on c xs of
             [] \<Rightarrow> [[x]]
           | w # ws \<Rightarrow> (x # w) # ws)"

text \<open>
  \<open>schema.$ref.replace('#/', '').split('/')\<close>: only a string has a \<open>replace\<close> method, on
  any other value the call throws.
\<close>

definition refPath :: "jsval \<Rightarrow> failure + string list" where
  "refPath ref =
     (case ref of
        Str s \<Rightarrow> Inr (split_on CHR ''/'' (replace_first ''#/'' [] s))
      | _ \<Rightarrow> Inl TypeError)"

text \<open>The loop over the segments, leaving at the first value that is not truthy.\<close>

fun walk :: "heap \<Rightarrow> jsval \<Rightarrow> string list \<Rightarrow> failure + jsval" where
  "walk h resolved [] = Inr resolved"
| "walk h resolved (segment # segments) =
     (case get_prop h resolved segment of
        Inl e \<Rightarrow> Inl e
      | Inr next \<Rightarrow> if \<not> truthy next then Inr next else walk h next segments)"

definition resolveRef :: "heap \<Rightarrow> jsval \<Rightarrow> jsval \<Rightarrow> failure + jsval" where
  "resolveRef h openApiDoc ref =
     (case refPath ref of
        Inl e \<Rightarrow> Inl e
      | Inr segments \<Rightarrow> walk h openApiDoc segments)"

fun seqFields :: "(failure + string list) list \<Rightarrow> failure + string list" where
  "seqFields [] = Inr []"
| "seqFields (m # ms) =
     (case m of
        Inl e \<Rightarrow> Inl e
      | Inr r \<Rightarrow>
          (case seqFields ms of
             Inl e \<Rightarrow> Inl e
           | Inr rs \<Rightarrow> Inr (r @ rs)))"

definition directFields_simple :: "heap \<Rightarrow> jsval \<Rightarrow> string list \<Rightarrow> failure + string list" where
  "directFields_simple h props targetFields =
     seqFields (map (\<lambda>field.
        case has_prop h field props of
          Inl e \<Rightarrow> Inl e
        | Inr present \<Rightarrow> if present then Inr [field] else Inr []) targetFields)"

text \<open>
  The fourth argument of the source, \<open>openApiDoc\<close>, is optional: \<open>Undefined\<close> when it is left
  out. The \<open>catch\<close> takes every exception of the \<open>try\<close> block.
\<close>

function findFieldsInSchema_simple ::
  "heap \<Rightarrow> jsval \<Rightarrow> string list \<Rightarrow> nat \<Rightarrow> jsval \<Rightarrow> failure + string list" where
  "findFieldsInSchema_simple h schema targetFields depth openApiDoc =
    (if \<not> truthy schema \<or> typeof schema \<noteq> ''object'' then Inr []
     else if depth > 10 then Inr []
     else
       (case seqFields
          [ \<comment> \<open>\<open>$ref\<close> references\<close>
            (case get_prop h schema ''$ref'' of
               Inl e \<Rightarrow> Inl e
             | Inr ref \<Rightarrow>
                 if truthy ref \<and> truthy openApiDoc
                 then
                   (case
                      (case resolveRef h openApiDoc ref of
                         Inl e \<Rightarrow> Inl e
                       | Inr resolvedSchema \<Rightarrow>
                           if truthy resolvedSchema
                           then findFieldsInSchema_simple h resolvedSchema targetFields
                                  (depth + 1) openApiDoc
                           else Inr [])
                    of
                      Inl TypeError \<Rightarrow> Inr []
                    | Inl Unsupported \<Rightarrow> Inl Unsupported
                    | Inr nestedFields \<Rightarrow> Inr nestedFields)
                 else Inr []),
            \<comment> \<open>direct properties, then the value of every property\<close>
            (case get_prop h schema ''properties'' of
               Inl e \<Rightarrow> Inl e
             | Inr props \<Rightarrow>
                 if truthy props \<and> typeof props = ''object''
                 then seqFields
                   [ directFields_simple h props targetFields,
                     seqFields (map (\<lambda>prop.
                       case get_prop h props prop of
                         Inl e \<Rightarrow> Inl e
                       | Inr sub \<Rightarrow>
                           findFieldsInSchema_simple h sub targetFields (depth + 1) openApiDoc)
                       (enum_keys h props)) ]
                 else Inr []),
            \<comment> \<open>array items\<close>
            (case get_prop h schema ''items'' of
               Inl e \<Rightarrow> Inl e
             | Inr items \<Rightarrow>
                 if truthy items
                 then findFieldsInSchema_simple h items targetFields (depth + 1) openApiDoc
                 else Inr []),
            \<comment> \<open>object schemas without explicit properties\<close>
            (case get_prop h schema ''type'' of
               Inl e \<Rightarrow> Inl e
             | Inr ty \<Rightarrow>
                 (case get_prop h schema ''properties'' of
                    Inl e \<Rightarrow> Inl e
                  | Inr props \<Rightarrow>
                      if ty = Str ''object'' \<and> \<not> truthy props then Inr targetFields else Inr [])),
            \<comment> \<open>additionalProperties\<close>
            (case get_prop h schema ''additionalProperties'' of
               Inl e \<Rightarrow> Inl e
             | Inr ap \<Rightarrow>
                 if truthy ap
                 then
                   if typeof ap = ''object''
                   then findFieldsInSchema_simple h ap targetFields (depth + 1) openApiDoc
                   else if ap = Bool True then Inr targetFields
                   else Inr []
                 else Inr []),
            \<comment> \<open>combined schemas\<close>
            seqFields (map (\<lambda>key.
              case get_prop h schema key of
                Inl e \<Rightarrow> Inl e
              | Inr subs \<Rightarrow>
                  if truthy subs \<and> isArray h subs
                  then
                    (case iterate h subs of
                       Inl e \<Rightarrow> Inl e
                     | Inr subSchemas \<Rightarrow>
                         seqFields (map (\<lambda>subSchema.
                           findFieldsInSchema_simple h subSchema targetFields (depth + 1) openApiDoc)
                           subSchemas))
                  else Inr []) combinedSchemas) ]
        of
          Inl e \<Rightarrow> Inl e
        | Inr foundFields \<Rightarrow> Inr (new_Set foundFields)))"
  by pat_completeness auto
termination
  by (relation "measure (\<lambda>(h, schema, targetFields, depth, openApiDoc). 11 - depth)") auto

declare findFieldsInSchema_simple.simps [simp del]

section \<open>Path Grouper and Operation Scanner of generate-types.ts\<close>

text \<open>
  A record from strings to sets or lists of paths is a map of its own properties: what is
  stored under a key is modelled, the order of the keys is not. The records are plain objects
  (\<open>{}\<close>), so a read of a key they do not own falls through to \<open>Object.prototype\<close>
  (\<open>add_to\<close> below). The two functions of the Operation Scanner,
  \<open>extractResponseFieldPaths\<close> and \<open>extractRequestFieldPaths\<close>, have the same text apart
  from the body of the loop over the HTTP methods; \<open>extractFieldPaths\<close> and \<open>scan_path\<close>
  are that shared text, and \<open>response_method\<close> and \<open>request_method\<close> the two bodies. What
  the Finder writes to the console during a scan is dropped.
\<close>

definition DEFAULT_GROUP :: string where
  "DEFAULT_GROUP = ''default''"

definition HTTP_METHODS :: "string list" where
  "HTTP_METHODS = [''get'', ''post'', ''put'', ''delete'', ''patch'', ''head'', ''options'']"

text \<open>
  A value used as a property key is converted to a string. An integer of at most 21
  digits is rendered in decimal; the conversion of a larger number (exponent
  notation) and of an object (its \<open>toString\<close>) is not modelled.
\<close>

definition int_key :: "int \<Rightarrow> string" where
  "int_key n = (if n < 0 then CHR ''-'' # dec (nat (- n)) else dec (nat n))"

fun to_key :: "jsval \<Rightarrow> failure + string" where
  "to_key (Str s) = Inr s"
| "to_key Undefined = Inr ''undefined''"
| "to_key Null = Inr ''null''"
| "to_key (Bool b) = Inr (if b then ''true'' else ''false'')"
| "to_key (Num n) =
     (if \<bar>n\<bar> < 1000000000000000000000 then Inr (int_key n) else Inl Unsupported)"
| "to_key (Ref a) = Inl Unsupported"

text \<open>A loop whose body may throw: the first exception ends it.\<close>

fun foldE :: "('a \<Rightarrow> 's \<Rightarrow> failure + 's) \<Rightarrow> 'a list \<Rightarrow> 's \<Rightarrow> failure + 's" where
  "foldE f [] s = Inr s"
| "foldE f (x # xs) s =
     (case f x s of
        Inl e \<Rightarrow> Inl e
      | Inr s' \<Rightarrow> foldE f xs s')"

text \<open>A \<open>Record<string, Set<string>>\<close>, and in the result a \<open>Record<string, string[]>\<close>.\<close>

type_synonym path_sets = "string \<rightharpoonup> string list"

text \<open>
  \<open>if (!rec[key]) rec[key] = new Set(); rec[key].add(path)\<close> on a record \<open>rec\<close> that
  was created as \<open>{}\<close>. When \<open>rec\<close> has no own property \<open>key\<close> and \<open>key\<close> names a member
  of \<open>Object.prototype\<close>, the read \<open>rec[key]\<close> returns that member, a function (for
  \<open>__proto__\<close> the prototype object): it is truthy, so no set is stored, and it has no
  \<open>add\<close>, so the call throws.
\<close>

definition add_to :: "path_sets \<Rightarrow> string \<Rightarrow> string \<Rightarrow> failure + path_sets" where
  "add_to rec key path =
     (case rec key of
        Some s \<Rightarrow> Inr (rec(key \<mapsto> set_add s path))
      | None \<Rightarrow>
          if key \<in> set Object_prototype then Inl TypeError
          else Inr (rec(key \<mapsto> set_add [] path)))"

text \<open>\<open>Array.from(s).sort()\<close> on every entry.\<close>

definition sorted_arrays :: "path_sets \<Rightarrow> path_sets" where
  "sorted_arrays rec = (\<lambda>key. map_option sort (rec key))"

definition group_step :: "heap \<Rightarrow> string \<Rightarrow> jsval \<Rightarrow> path_sets \<Rightarrow> failure + path_sets" where
  "group_step h path tag groupPaths =
     (case to_key tag of
        Inl e \<Rightarrow> Inl e
      | Inr g \<Rightarrow> add_to groupPaths g path)"

text \<open>\<open>n > 0\<close> for the \<open>length\<close> of an array, which is a number.\<close>

fun positive :: "jsval \<Rightarrow> bool" where
  "positive (Num n) = (n > 0)"
| "positive v = False"

definition group_method :: "heap \<Rightarrow> string \<Rightarrow> jsval \<Rightarrow> string \<Rightarrow> path_sets \<Rightarrow> failure + path_sets" where
  "group_method h path pathItem method groupPaths =
     (case get_prop h pathItem method of
        Inl e \<Rightarrow> Inl e
      | Inr operation \<Rightarrow>
          if truthy operation
          then
            (case get_prop h operation ''tags'' of
               Inl e \<Rightarrow> Inl e
             | Inr tags \<Rightarrow>
                 if truthy tags \<and> isArray h tags
                 then
                   (case get_prop h tags ''length'' of
                      Inl e \<Rightarrow> Inl e
                    | Inr len \<Rightarrow>
                        if positive len
                        then
                          (case iterate h tags of
                             Inl e \<Rightarrow> Inl e
                           | Inr groups \<Rightarrow> foldE (group_step h path) groups groupPaths)
                        else add_to groupPaths DEFAULT_GROUP path)
                 else add_to groupPaths DEFAULT_GROUP path)
          else Inr groupPaths)"

definition group_path :: "heap \<Rightarrow> jsval \<Rightarrow> string \<Rightarrow> path_sets \<Rightarrow> failure + path_sets" where
  "group_path h paths path groupPaths =
     (case get_prop h paths path of
        Inl e \<Rightarrow> Inl e
      | Inr pathItem \<Rightarrow>
          if \<not> truthy pathItem then Inr groupPaths
          else foldE (group_method h path pathItem) HTTP_METHODS groupPaths)"

definition extractGroupPaths :: "heap \<Rightarrow> jsval \<Rightarrow> failure + path_sets" where
  "extractGroupPaths h openApi =
     (case get_prop h openApi ''paths'' of
        Inl e \<Rightarrow> Inl e
      | Inr paths \<Rightarrow>
          if \<not> truthy paths then Inr Map.empty
          else
            (case foldE (group_path h paths) (enum_keys h paths) Map.empty of
               Inl e \<Rightarrow> Inl e
             | Inr groupPaths \<Rightarrow> Inr (sorted_arrays groupPaths)))"

record field_paths =
  fieldPaths :: path_sets
  groupFieldPaths :: "string \<rightharpoonup> path_sets"

text \<open>\<open>operation.tags || [DEFAULT_GROUP]\<close>, iterated by \<open>for (const group of groups)\<close>.\<close>

definition groups_of :: "heap \<Rightarrow> jsval \<Rightarrow> failure + jsval list" where
  "groups_of h tags = (if truthy tags then iterate h tags else Inr [Str DEFAULT_GROUP])"

definition field_group_step ::
  "string \<Rightarrow> string \<Rightarrow> jsval \<Rightarrow> field_paths \<Rightarrow> failure + field_paths" where
  "field_group_step path foundField tag st =
     (case groupFieldPaths st foundField of
        None \<Rightarrow> Inl TypeError
      | Some rec \<Rightarrow>
          (case to_key tag of
             Inl e \<Rightarrow> Inl e
           | Inr g \<Rightarrow>
               (case add_to rec g path of
                  Inl e \<Rightarrow> Inl e
                | Inr rec' \<Rightarrow>
                    Inr (st\<lparr>groupFieldPaths := (groupFieldPaths st)(foundField \<mapsto> rec')\<rparr>))))"

definition field_step ::
  "heap \<Rightarrow> string \<Rightarrow> jsval \<Rightarrow> string \<Rightarrow> field_paths \<Rightarrow> failure + field_paths" where
  "field_step h path tags foundField st =
     (case fieldPaths st foundField of
        None \<Rightarrow> Inl TypeError
      | Some s \<Rightarrow>
          (case groups_of h tags of
             Inl e \<Rightarrow> Inl e
           | Inr groups \<Rightarrow>
               foldE (field_group_step path foundField) groups
                 (st\<lparr>fieldPaths := (fieldPaths st)(foundField \<mapsto> set_add s path)\<rparr>)))"

text \<open>The body of the loop over the media types of a \<open>content\<close> mapping.\<close>

definition media_step ::
  "heap \<Rightarrow> string list \<Rightarrow> string \<Rightarrow> string \<Rightarrow> location \<Rightarrow> jsval \<Rightarrow> jsval \<Rightarrow> string
     \<Rightarrow> field_paths \<Rightarrow> failure + field_paths" where
  "media_step h targetFields path method loc tags content mediaType st =
     (case get_prop h content mediaType of
        Inl e \<Rightarrow> Inl e
      | Inr mediaObj \<Rightarrow>
          (case get_prop h mediaObj ''schema'' of
             Inl e \<Rightarrow> Inl e
           | Inr schema \<Rightarrow>
               if truthy schema
               then
                 (case findFieldsInSchema h schema targetFields 0 True
                         \<lparr>ctx_path = Some path, ctx_method = Some method, ctx_location = Some loc\<rparr> of
                    Inl e \<Rightarrow> Inl e
                  | Inr found \<Rightarrow> foldE (field_step h path tags) (fst found) st)
               else Inr st))"

definition response_step ::
  "heap \<Rightarrow> string list \<Rightarrow> string \<Rightarrow> string \<Rightarrow> jsval \<Rightarrow> jsval \<Rightarrow> string
     \<Rightarrow> field_paths \<Rightarrow> failure + field_paths" where
  "response_step h targetFields path method tags responses responseCode st =
     (case get_prop h responses responseCode of
        Inl e \<Rightarrow> Inl e
      | Inr response \<Rightarrow>
          if \<not> truthy response then Inr st
          else
            (case get_prop h response ''content'' of
               Inl e \<Rightarrow> Inl e
             | Inr content \<Rightarrow>
                 if truthy content
                 then foldE (media_step h targetFields path method Response tags content)
                        (enum_keys h content) st
                 else Inr st))"

definition response_method ::
  "heap \<Rightarrow> string list \<Rightarrow> string \<Rightarrow> jsval \<Rightarrow> string \<Rightarrow> field_paths \<Rightarrow> failure + field_paths" where
  "response_method h targetFields path pathItem method st =
     (case get_prop h pathItem method of
        Inl e \<Rightarrow> Inl e
      | Inr operation \<Rightarrow>
          if \<not> truthy operation then Inr st
          else
            (case get_prop h operation ''responses'' of
               Inl e \<Rightarrow> Inl e
             | Inr responses \<Rightarrow>
                 if truthy responses
                 then
                   (case get_prop h operation ''tags'' of
                      Inl e \<Rightarrow> Inl e
                    | Inr tags \<Rightarrow>
                        foldE (response_step h targetFields path method tags responses)
                          (enum_keys h responses) st)
                 else Inr st))"

definition request_method ::
  "heap \<Rightarrow> string list \<Rightarrow> string \<Rightarrow> jsval \<Rightarrow> string \<Rightarrow> field_paths \<Rightarrow> failure + field_paths" where
  "request_method h targetFields path pathItem method st =
     (case get_prop h pathItem method of
        Inl e \<Rightarrow> Inl e
      | Inr operation \<Rightarrow>
          if \<not> truthy operation then Inr st
          else
            (case get_prop h operation ''requestBody'' of
               Inl e \<Rightarrow> Inl e
             | Inr requestBody \<Rightarrow>
                 if truthy requestBody
                 then
                   (case get_prop h operation ''tags'' of
                      Inl e \<Rightarrow> Inl e
                    | Inr tags \<Rightarrow>
                        (case get_prop h requestBody ''content'' of
                           Inl e \<Rightarrow> Inl e
                         | Inr content \<Rightarrow>
                             if truthy content
                             then foldE (media_step h targetFields path method Request tags content)
                                    (enum_keys h content) st
                             else Inr st))
                 else Inr st))"

text \<open>The loop over the paths, for either mode; \<open>per_method\<close> is the body for one method.\<close>

definition scan_path ::
  "heap \<Rightarrow> (string \<Rightarrow> jsval \<Rightarrow> string \<Rightarrow> field_paths \<Rightarrow> failure + field_paths) \<Rightarrow> jsval \<Rightarrow> string
     \<Rightarrow> field_paths \<Rightarrow> failure + field_paths" where
  "scan_path h per_method paths path st =
     (case get_prop h paths path of
        Inl e \<Rightarrow> Inl e
      | Inr pathItem \<Rightarrow>
          if \<not> truthy pathItem then Inr st
          else foldE (per_method path pathItem) HTTP_METHODS st)"

text \<open>
  The sets before the scan: one empty set and one empty record for every target field. The
  assignment \<open>fieldPaths[field] = new Set()\<close> creates an own property, also when \<open>field\<close>
  names a member of \<open>Object.prototype\<close>, with one exception: for \<open>__proto__\<close> it replaces
  the prototype of the record. A scan with that target field is not modelled
  (\<open>extractFieldPaths\<close> below); the early return for a document without paths builds its
  result with \<open>Object.fromEntries\<close>, which creates an own property for every name.
\<close>

definition initial_sets :: "string list \<Rightarrow> field_paths" where
  "initial_sets targetFields =
     fold (\<lambda>field st. \<lparr>fieldPaths = (fieldPaths st)(field \<mapsto> []),
                          groupFieldPaths = (groupFieldPaths st)(field \<mapsto> Map.empty)\<rparr>)
       targetFields \<lparr>fieldPaths = Map.empty, groupFieldPaths = Map.empty\<rparr>"

text \<open>The conversion of the sets to sorted arrays, field by field.\<close>

definition sorted_result :: "field_paths \<Rightarrow> field_paths" where
  "sorted_result st =
     \<lparr>fieldPaths = sorted_arrays (fieldPaths st),
      groupFieldPaths = (\<lambda>field.
        case fieldPaths st field of
          None \<Rightarrow> None
        | Some s \<Rightarrow>
            Some (case groupFieldPaths st field of
                    None \<Rightarrow> Map.empty
                  | Some rec \<Rightarrow> sorted_arrays rec))\<rparr>"

definition extractFieldPaths ::
  "heap \<Rightarrow> (string \<Rightarrow> jsval \<Rightarrow> string \<Rightarrow> field_paths \<Rightarrow> failure + field_paths) \<Rightarrow> jsval
     \<Rightarrow> string list \<Rightarrow> failure + field_paths" where
  "extractFieldPaths h per_method openApi targetFields =
     (case get_prop h openApi ''paths'' of
        Inl e \<Rightarrow> Inl e
      | Inr paths \<Rightarrow>
          if \<not> truthy paths
          then Inr \<lparr>fieldPaths = map_of (map (\<lambda>field. (field, [])) targetFields),
                    groupFieldPaths = map_of (map (\<lambda>field. (field, Map.empty)) targetFields)\<rparr>
          else if ''__proto__'' \<in> set targetFields then Inl Unsupported
          else
            (case foldE (scan_path h per_method paths) (enum_keys h paths)
                    (initial_sets targetFields) of
               Inl e \<Rightarrow> Inl e
             | Inr st \<Rightarrow> Inr (sorted_result st)))"

definition extractResponseFieldPaths :: "heap \<Rightarrow> jsval \<Rightarrow> string list \<Rightarrow> failure + field_paths" where
  "extractResponseFieldPaths h openApi targetFields =
     extractFieldPaths h (response_method h targetFields) openApi targetFields"

definition extractRequestFieldPaths :: "heap \<Rightarrow> jsval \<Rightarrow> string list \<Rightarrow> failure + field_paths" where
  "extractRequestFieldPaths h openApi targetFields =
     extractFieldPaths h (request_method h targetFields) openApi targetFields"

section \<open>What the Finder returns, as equations\<close>

text \<open>
  The definitions of this section are not part of the program: they name what a run
  returns, so that the lemmas below can state it. \<open>getp\<close>, \<open>key_in\<close> and
  \<open>elements\<close> are \<open>v[k]\<close>, \<open>k in v\<close> and the elements of \<open>v\<close> where these do not throw.
  \<open>node_fields\<close> lists what each statement of the Finder's body pushes to
  \<open>foundFields\<close>, given what the recursive calls return.
\<close>

definition getp :: "heap \<Rightarrow> jsval \<Rightarrow> string \<Rightarrow> jsval" where
  "getp h v k = (case get_prop h v k of Inl e \<Rightarrow> Undefined | Inr x \<Rightarrow> x)"

definition key_in :: "heap \<Rightarrow> string \<Rightarrow> jsval \<Rightarrow> bool" where
  "key_in h k v = (case has_prop h k v of Inl e \<Rightarrow> False | Inr b \<Rightarrow> b)"

definition elements :: "heap \<Rightarrow> jsval \<Rightarrow> jsval list" where
  "elements h v = (case iterate h v of Inl e \<Rightarrow> [] | Inr xs \<Rightarrow> xs)"

definition yields :: "failure + findings \<Rightarrow> string list \<Rightarrow> bool" where
  "yields m fs = (case m of Inl e \<Rightarrow> False | Inr r \<Rightarrow> fst r = fs)"

definition node_fields :: "heap \<Rightarrow> (jsval \<Rightarrow> string list) \<Rightarrow> jsval \<Rightarrow> string list \<Rightarrow> string list list" where
  "node_fields h rec schema targetFields =
     [ if truthy (getp h schema ''properties'') \<and> typeof (getp h schema ''properties'') = ''object''
       then concat
         [ filter (\<lambda>field. key_in h field (getp h schema ''properties'')) targetFields,
           concat (map (\<lambda>k. rec (getp h (getp h schema ''properties'') k))
             (enum_keys h (getp h schema ''properties''))) ]
       else [],
       if truthy (getp h schema ''items'') then rec (getp h schema ''items'') else [],
       if getp h schema ''type'' = Str ''object'' \<and> \<not> truthy (getp h schema ''properties'')
       then targetFields else [],
       if truthy (getp h schema ''additionalProperties'')
       then
         if typeof (getp h schema ''additionalProperties'') = ''object''
         then rec (getp h schema ''additionalProperties'')
         else if getp h schema ''additionalProperties'' = Bool True then targetFields
         else []
       else [],
       concat (map (\<lambda>key.
         if truthy (getp h schema key) \<and> isArray h (getp h schema key)
         then concat (map rec (elements h (getp h schema key)))
         else []) combinedSchemas),
       if truthy (getp h schema ''patternProperties'')
          \<and> typeof (getp h schema ''patternProperties'') = ''object''
       then concat (map (\<lambda>k. rec (getp h (getp h schema ''patternProperties'') k))
              (enum_keys h (getp h schema ''patternProperties'')))
       else [],
       if truthy (getp h schema ''discriminator'')
          \<and> truthy (getp h (getp h schema ''discriminator'') ''mapping'')
       then targetFields else [],
       if getp h schema ''type'' = Str ''object'' \<and> \<not> truthy (getp h schema ''properties'')
          \<and> \<not> truthy (getp h schema ''additionalProperties'')
          \<and> \<not> truthy (getp h schema ''patternProperties'')
       then targetFields else [] ]"

text \<open>The fields a call of the Finder returns.\<close>

definition found :: "heap \<Rightarrow> jsval \<Rightarrow> string list \<Rightarrow> nat \<Rightarrow> string list" where
  "found h schema t depth =
     (case findFieldsInSchema h schema t depth False no_context of Inl e \<Rightarrow> [] | Inr r \<Rightarrow> fst r)"

text \<open>
  The same for the Finder of simple-generate-types.ts. \<open>ref_target\<close> is the value the
  walk along a reference ends at, \<open>Undefined\<close> when the \<open>try\<close> block throws before.
\<close>

definition ref_target :: "heap \<Rightarrow> jsval \<Rightarrow> jsval \<Rightarrow> jsval" where
  "ref_target h openApiDoc ref = (case resolveRef h openApiDoc ref of Inl e \<Rightarrow> Undefined | Inr r \<Rightarrow> r)"

definition node_fields_simple ::
  "heap \<Rightarrow> (jsval \<Rightarrow> string list) \<Rightarrow> jsval \<Rightarrow> jsval \<Rightarrow> string list \<Rightarrow> string list list" where
  "node_fields_simple h rec openApiDoc schema targetFields =
     [ if truthy (getp h schema ''$ref'') \<and> truthy openApiDoc
          \<and> truthy (ref_target h openApiDoc (getp h schema ''$ref''))
       then rec (ref_target h openApiDoc (getp h schema ''$ref''))
       else [],
       if truthy (getp h schema ''properties'') \<and> typeof (getp h schema ''properties'') = ''object''
       then concat
         [ filter (\<lambda>field. key_in h field (getp h schema ''properties'')) targetFields,
           concat (map (\<lambda>k. rec (getp h (getp h schema ''properties'') k))
             (enum_keys h (getp h schema ''properties''))) ]
       else [],
       if truthy (getp h schema ''items'') then rec (getp h schema ''items'') else [],
       if getp h schema ''type'' = Str ''object'' \<and> \<not> truthy (getp h schema ''properties'')
       then targetFields else [],
       if truthy (getp h schema ''additionalProperties'')
       then
         if typeof (getp h schema ''additionalProperties'') = ''object''
         then rec (getp h schema ''additionalProperties'')
         else if getp h schema ''additionalProperties'' = Bool True then targetFields
         else []
       else [],
       concat (map (\<lambda>key.
         if truthy (getp h schema key) \<and> isArray h (getp h schema key)
         then concat (map rec (elements h (getp h schema key)))
         else []) combinedSchemas) ]"

text \<open>The fields a call of the simple Finder returns.\<close>

definition found_simple :: "heap \<Rightarrow> jsval \<Rightarrow> string list \<Rightarrow> nat \<Rightarrow> jsval \<Rightarrow> string list" where
  "found_simple h schema t depth openApiDoc =
     (case findFieldsInSchema_simple h schema t depth openApiDoc of Inl e \<Rightarrow> [] | Inr fs \<Rightarrow> fs)"

text \<open>What the statements after the \<open>try\<close> block push to \<open>foundFields\<close>.\<close>

definition other_rules_simple ::
  "heap \<Rightarrow> jsval \<Rightarrow> string list \<Rightarrow> nat \<Rightarrow> jsval \<Rightarrow> string list" where
  "other_rules_simple h schema t depth openApiDoc =
     concat (tl (node_fields_simple h (\<lambda>v. found_simple h v t (depth + 1) openApiDoc)
       openApiDoc schema t))"

section \<open>Invariants of the scan\<close>

text \<open>Every set of paths built so far holds each path once.\<close>

definition sets_distinct :: "path_sets \<Rightarrow> bool" where
  "sets_distinct rec = (\<forall>key s. rec key = Some s \<longrightarrow> distinct s)"

definition all_sets_distinct :: "field_paths \<Rightarrow> bool" where
  "all_sets_distinct st =
     (sets_distinct (fieldPaths st)
      \<and> (\<forall>field rec. groupFieldPaths st field = Some rec \<longrightarrow> sets_distinct rec))"

text \<open>
  A path is in the set of a field, and in the field's bucket of a group; \<open>reached\<close> is both.
\<close>

definition in_field_set :: "field_paths \<Rightarrow> string \<Rightarrow> string \<Rightarrow> bool" where
  "in_field_set st field path =
     (case fieldPaths st field of None \<Rightarrow> False | Some s \<Rightarrow> path \<in> set s)"

definition in_group_bucket :: "field_paths \<Rightarrow> string \<Rightarrow> string \<Rightarrow> string \<Rightarrow> bool" where
  "in_group_bucket st field g path =
     (case groupFieldPaths st field of
        None \<Rightarrow> False
      | Some rec \<Rightarrow> (case rec g of None \<Rightarrow> False | Some s \<Rightarrow> path \<in> set s))"

definition reached :: "field_paths \<Rightarrow> string \<Rightarrow> string \<Rightarrow> string \<Rightarrow> bool" where
  "reached st field g path = (in_field_set st field path \<and> in_group_bucket st field g path)"

section \<open>The matching rules of the specification\<close>

text \<open>
  Following the specification, not the code: a target field is discoverable from a node
  when one of the eleven matching rules of the Schema Field Finder finds it, at a node that
  is an object and lies within the depth ceiling of 10 levels. The rules are numbered as in
  the specification; \<open>rules\<close> is the set of the rules in force, so that the relation can
  also be read with some of them left out. A direct key (rule 1) is an own property. Rule
  11 needs the document the reference is resolved against; a reference resolves to
  \<open>ref_target\<close>.
\<close>

definition is_object :: "jsval \<Rightarrow> bool" where
  "is_object v = (truthy v \<and> typeof v = ''object'')"

definition looked_at :: "jsval \<Rightarrow> nat \<Rightarrow> bool" where
  "looked_at schema depth = (is_object schema \<and> depth \<le> 10)"

inductive discoverable ::
  "nat set \<Rightarrow> heap \<Rightarrow> jsval \<Rightarrow> string list \<Rightarrow> nat \<Rightarrow> jsval \<Rightarrow> string \<Rightarrow> bool"
  for rules :: "nat set" and h :: heap and openApiDoc :: jsval and t :: "string list" where
  direct_key:
    "1 \<in> rules \<Longrightarrow> looked_at schema d \<Longrightarrow> is_object (getp h schema ''properties'')
     \<Longrightarrow> has_own h f (getp h schema ''properties'') \<Longrightarrow> f \<in> set t
     \<Longrightarrow> discoverable rules h openApiDoc t d schema f"
| in_property:
    "2 \<in> rules \<Longrightarrow> looked_at schema d \<Longrightarrow> is_object (getp h schema ''properties'')
     \<Longrightarrow> k \<in> set (enum_keys h (getp h schema ''properties''))
     \<Longrightarrow> discoverable rules h openApiDoc t (Suc d) (getp h (getp h schema ''properties'') k) f
     \<Longrightarrow> discoverable rules h openApiDoc t d schema f"
| in_items:
    "3 \<in> rules \<Longrightarrow> looked_at schema d
     \<Longrightarrow> discoverable rules h openApiDoc t (Suc d) (getp h schema ''items'') f
     \<Longrightarrow> discoverable rules h openApiDoc t d schema f"
| dynamic_object:
    "4 \<in> rules \<Longrightarrow> looked_at schema d \<Longrightarrow> getp h schema ''type'' = Str ''object''
     \<Longrightarrow> \<not> truthy (getp h schema ''properties'') \<Longrightarrow> f \<in> set t
     \<Longrightarrow> discoverable rules h openApiDoc t d schema f"
| in_additionalProperties:
    "5 \<in> rules \<Longrightarrow> looked_at schema d
     \<Longrightarrow> discoverable rules h openApiDoc t (Suc d) (getp h schema ''additionalProperties'') f
     \<Longrightarrow> discoverable rules h openApiDoc t d schema f"
| additionalProperties_true:
    "6 \<in> rules \<Longrightarrow> looked_at schema d \<Longrightarrow> getp h schema ''additionalProperties'' = Bool True
     \<Longrightarrow> f \<in> set t
     \<Longrightarrow> discoverable rules h openApiDoc t d schema f"
| in_combined:
    "7 \<in> rules \<Longrightarrow> looked_at schema d \<Longrightarrow> key \<in> {''allOf'', ''oneOf'', ''anyOf''}
     \<Longrightarrow> isArray h (getp h schema key) \<Longrightarrow> sub \<in> set (elements h (getp h schema key))
     \<Longrightarrow> discoverable rules h openApiDoc t (Suc d) sub f
     \<Longrightarrow> discoverable rules h openApiDoc t d schema f"
| in_patternProperties:
    "8 \<in> rules \<Longrightarrow> looked_at schema d \<Longrightarrow> is_object (getp h schema ''patternProperties'')
     \<Longrightarrow> k \<in> set (enum_keys h (getp h schema ''patternProperties''))
     \<Longrightarrow> discoverable rules h openApiDoc t (Suc d)
           (getp h (getp h schema ''patternProperties'') k) f
     \<Longrightarrow> discoverable rules h openApiDoc t d schema f"
| discriminator_mapping:
    "9 \<in> rules \<Longrightarrow> looked_at schema d \<Longrightarrow> truthy (getp h schema ''discriminator'')
     \<Longrightarrow> truthy (getp h (getp h schema ''discriminator'') ''mapping'') \<Longrightarrow> f \<in> set t
     \<Longrightarrow> discoverable rules h openApiDoc t d schema f"
| free_form:
    "10 \<in> rules \<Longrightarrow> looked_at schema d \<Longrightarrow> getp h schema ''type'' = Str ''object''
     \<Longrightarrow> \<not> truthy (getp h schema ''properties'')
     \<Longrightarrow> \<not> truthy (getp h schema ''additionalProperties'')
     \<Longrightarrow> \<not> truthy (getp h schema ''patternProperties'') \<Longrightarrow> f \<in> set t
     \<Longrightarrow> discoverable rules h openApiDoc t d schema f"
| via_reference:
    "11 \<in> rules \<Longrightarrow> looked_at schema d \<Longrightarrow> truthy (getp h schema ''$ref'')
     \<Longrightarrow> truthy openApiDoc
     \<Longrightarrow> discoverable rules h openApiDoc t (Suc d)
           (ref_target h openApiDoc (getp h schema ''$ref'')) f
     \<Longrightarrow> discoverable rules h openApiDoc t d schema f"

text \<open>
  The rules of the specification, and the rules that are left for each of the two Finders:
  the Finder of generate-types.ts is handed no document and has no rule for a reference
  (rule 11), the Finder of simple-generate-types.ts has no rule for patternProperties and
  none for a discriminator (rules 8 and 9).
\<close>

definition all_rules :: "nat set" where
  "all_rules = {1..11}"

definition generate_types_rules :: "nat set" where
  "generate_types_rules = all_rules - {11}"

definition simple_rules :: "nat set" where
  "simple_rules = all_rules - {8, 9}"

text \<open>
  No target field names a member of \<open>Object.prototype\<close> or of \<open>Array.prototype\<close>: for such
  targets the \<open>in\<close> operator of the code and the direct keys of the specification agree.
\<close>

definition plain_targets :: "string list \<Rightarrow> bool" where
  "plain_targets t =
     list_all (\<lambda>f. f \<notin> set Object_prototype \<and> f \<notin> set Array_prototype) t"

section \<open>A sample document\<close>

text \<open>
  A heap for the concrete runs below. Address 0 is a document with two paths: \<open>/login\<close>
  (POST, tagged \<open>auth\<close> and \<open>users\<close>) and \<open>/a\<close> (GET, with an empty list of tags). Both
  answer 200 with a JSON body whose schema (address 9) has the property \<open>email\<close>. Address
  40 is a schema whose \<open>properties.self\<close> is the schema itself, address 50 is the free-form
  schema \<open>{type: "object"}\<close>, address 51 has \<open>additionalProperties: true\<close>, address 52 a
  \<open>discriminator\<close> with a \<open>mapping\<close>, address 55 is an array of the schema 9, address 56
  an \<open>allOf\<close> with the schema 9 as a member, address 58 has \<open>patternProperties\<close> with the
  schema 9 under a pattern, addresses 60 and 61 hold a reference that resolves
  and one that does not, and address 70 is a document without \<open>paths\<close>. Address 80 is a
  document with the one path \<open>/login\<close> (POST, tagged \<open>auth\<close> and \<open>toString\<close>, with the
  responses of address 5).
\<close>

definition sample :: heap where
  "sample = (\<lambda>a. Obj [])
     (0 := Obj [(''paths'', Ref 13), (''components'', Ref 30)],
      2 := Obj [(''post'', Ref 3)],
      3 := Obj [(''tags'', Ref 4), (''responses'', Ref 5)],
      4 := Arr [Str ''auth'', Str ''users''],
      5 := Obj [(''200'', Ref 6)],
      6 := Obj [(''content'', Ref 7)],
      7 := Obj [(''application/json'', Ref 8)],
      8 := Obj [(''schema'', Ref 9)],
      9 := Obj [(''properties'', Ref 20)],
      10 := Obj [(''get'', Ref 11)],
      11 := Obj [(''tags'', Ref 12), (''responses'', Ref 5)],
      12 := Arr [],
      13 := Obj [(''/login'', Ref 2), (''/a'', Ref 10)],
      20 := Obj [(''email'', Ref 21)],
      21 := Obj [(''type'', Str ''string'')],
      30 := Obj [(''schemas'', Ref 31)],
      31 := Obj [(''User'', Ref 9)],
      40 := Obj [(''properties'', Ref 41)],
      41 := Obj [(''self'', Ref 40), (''id'', Ref 21)],
      50 := Obj [(''type'', Str ''object'')],
      51 := Obj [(''additionalProperties'', Bool True)],
      52 := Obj [(''discriminator'', Ref 53)],
      53 := Obj [(''propertyName'', Str ''kind''), (''mapping'', Ref 54)],
      54 := Obj [(''cat'', Str ''#/components/schemas/User'')],
      55 := Obj [(''type'', Str ''array''), (''items'', Ref 9)],
      56 := Obj [(''allOf'', Ref 57)],
      57 := Arr [Ref 21, Ref 9],
      58 := Obj [(''patternProperties'', Ref 59)],
      59 := Obj [(''^x-'', Ref 9)],
      60 := Obj [(''$ref'', Str ''#/components/schemas/User'')],
      61 := Obj [(''$ref'', Str ''#/components/schemas/Missing'')],
      70 := Obj [(''info'', Ref 21)],
      80 := Obj [(''paths'', Ref 81)],
      81 := Obj [(''/login'', Ref 82)],
      82 := Obj [(''post'', Ref 83)],
      83 := Obj [(''tags'', Ref 84), (''responses'', Ref 5)],
      84 := Arr [Str ''auth'', Str ''toString''])"

definition sample_context :: log_context where
  "sample_context =
     \<lparr>ctx_path = Some ''/login'', ctx_method = Some ''post'', ctx_location = Some Response\<rparr>"

section \<open>The Finder of generate-types.ts returns, and what it returns\<close>

lemma get_prop_truthy: "truthy v \<Longrightarrow> get_prop h v k = Inr (getp h v k)"
  by (cases v) (auto simp: get_prop_def getp_def split: option.splits)

lemma object_is_Ref: "truthy v \<Longrightarrow> typeof v = ''object'' \<Longrightarrow> \<exists>a. v = Ref a"
  by (cases v) auto

lemma has_prop_object:
  "truthy v \<Longrightarrow> typeof v = ''object'' \<Longrightarrow> has_prop h k v = Inr (key_in h k v)"
  by (cases v) (auto simp: has_prop_def key_in_def)

lemma iterate_array: "isArray h v \<Longrightarrow> iterate h v = Inr (elements h v)"
  by (cases v) (auto simp: iterate_def elements_def split: jsobj.splits)

lemma yields_nil [simp]: "yields (Inr ([], [])) []"
  by (simp add: yields_def)

lemma yields_Inr [simp]: "yields (Inr r) fs \<longleftrightarrow> fst r = fs"
  by (simp add: yields_def)

lemma yields_Inl [simp]: "\<not> yields (Inl e) fs"
  by (simp add: yields_def)

lemma yieldsE: "yields m fs \<Longrightarrow> \<exists>lg. m = Inr (fs, lg)"
  by (cases m) (auto simp: yields_def)

lemma yields_seqAll:
  "list_all2 yields ms fss \<Longrightarrow> yields (seqAll ms) (concat fss)"
proof (induction ms fss rule: list_all2_induct)
  case Nil
  then show ?case by simp
next
  case (Cons m ms fs fss)
  then show ?case
    by (auto dest!: yieldsE)
qed

lemma yields_seqAll_map:
  "(\<And>x. x \<in> set xs \<Longrightarrow> yields (f x) (g x)) \<Longrightarrow> yields (seqAll (map f xs)) (concat (map g xs))"
  by (rule yields_seqAll) (simp add: list_all2_conv_all_nth)

lemma yields_allTargets [simp]: "yields (allTargets t debug ctx rule) t"
  by (simp add: allTargets_def)

lemma yields_directFields:
  assumes "truthy props" "typeof props = ''object''"
  shows "yields (directFields h props t depth debug ctx) (filter (\<lambda>field. key_in h field props) t)"
proof -
  have "yields (directFields h props t depth debug ctx)
          (concat (map (\<lambda>field. if key_in h field props then [field] else []) t))"
    unfolding directFields_def
    by (rule yields_seqAll_map) (simp add: has_prop_object [OF assms])
  moreover have "concat (map (\<lambda>field. if key_in h field props then [field] else []) t)
      = filter (\<lambda>field. key_in h field props) t"
    by (induction t) auto
  ultimately show ?thesis by simp
qed

lemma yields_finish:
  "yields m fs \<Longrightarrow> yields (case m of Inl e \<Rightarrow> Inl e | Inr r \<Rightarrow> Inr (new_Set (fst r), snd r)) (new_Set fs)"
  by (auto dest!: yieldsE)

lemma yields_seqAll2:
  "yields a x \<Longrightarrow> yields b y \<Longrightarrow> yields (seqAll [a, b]) (x @ y)"
  using yields_seqAll [of "[a, b]" "[x, y]"] by simp

lemma find_unfold:
  assumes s: "truthy schema" "typeof schema = ''object''" and d: "depth \<le> 10"
    and rec: "\<And>v. yields (findFieldsInSchema h v t (depth + 1) debug ctx) (rec v)"
  shows "yields (findFieldsInSchema h schema t depth debug ctx)
           (new_Set (concat (node_fields h rec schema t)))"
proof -
  have g: "get_prop h schema k = Inr (getp h schema k)" for k
    by (rule get_prop_truthy [OF s(1)])
  have guard: "\<not> (\<not> truthy schema \<or> typeof schema \<noteq> ''object'')" "\<not> depth > 10"
    using s d by auto
  note r = rec [simplified]
  show ?thesis
    apply (subst findFieldsInSchema.simps)
    apply (simp only: guard if_False g sum.case)
    apply (rule yields_finish)
    apply (rule yields_seqAll)
    apply (simp only: node_fields_def list_all2_Cons list_all2_Nil2 list.simps simp_thms)
    apply (intro conjI)
    subgoal
      by (auto simp: get_prop_truthy intro!: yields_seqAll2 yields_directFields yields_seqAll_map r simp del: seqAll.simps)
    subgoal by (auto intro!: r)
    subgoal by auto
    subgoal by (auto intro!: r)
    subgoal by (auto simp: get_prop_truthy iterate_array intro!: yields_seqAll_map r simp del: seqAll.simps)
    subgoal by (auto simp: get_prop_truthy intro!: yields_seqAll_map r simp del: seqAll.simps)
    subgoal by (auto simp: get_prop_truthy)
    subgoal by auto
    done
qed

lemma find_leaf:
  "\<not> truthy schema \<or> typeof schema \<noteq> ''object'' \<or> depth > 10
     \<Longrightarrow> findFieldsInSchema h schema t depth debug ctx = Inr ([], [])"
  by (subst findFieldsInSchema.simps) auto

lemma find_yields_aux:
  "11 - depth = n \<Longrightarrow> yields (findFieldsInSchema h schema t depth debug ctx) (found h schema t depth)"
proof (induction n arbitrary: depth schema debug ctx)
  case 0
  then have "depth > 10" by simp
  then show ?case by (simp add: find_leaf found_def)
next
  case (Suc n)
  then have d: "depth \<le> 10" and n: "11 - (depth + 1) = n" by simp_all
  show ?case
  proof (cases "truthy schema \<and> typeof schema = ''object''")
    case False
    then show ?thesis by (auto simp: find_leaf found_def)
  next
    case True
    then have s: "truthy schema" "typeof schema = ''object''" by simp_all
    have u: "yields (findFieldsInSchema h schema t depth dbg c)
               (new_Set (concat (node_fields h (\<lambda>v. found h v t (depth + 1)) schema t)))" for dbg c
      by (rule find_unfold [OF s d]) (rule Suc.IH [OF n])
    from u [of False no_context]
    have "found h schema t depth = new_Set (concat (node_fields h (\<lambda>v. found h v t (depth + 1)) schema t))"
      by (auto simp: found_def dest!: yieldsE)
    with u [of debug ctx] show ?thesis by simp
  qed
qed

lemma find_yields: "yields (findFieldsInSchema h schema t depth debug ctx) (found h schema t depth)"
  by (rule find_yields_aux [OF refl])

lemma found_simps:
  "found h schema t depth =
     (if \<not> truthy schema \<or> typeof schema \<noteq> ''object'' \<or> depth > 10 then []
      else new_Set (concat (node_fields h (\<lambda>v. found h v t (depth + 1)) schema t)))"
proof (cases "\<not> truthy schema \<or> typeof schema \<noteq> ''object'' \<or> depth > 10")
  case True
  then show ?thesis by (simp add: found_def find_leaf)
next
  case False
  then have "yields (findFieldsInSchema h schema t depth False no_context)
               (new_Set (concat (node_fields h (\<lambda>v. found h v t (depth + 1)) schema t)))"
    by (intro find_unfold find_yields) auto
  with False show ?thesis
    by (auto simp: found_def dest!: yieldsE)
qed

section \<open>The Finder of simple-generate-types.ts returns, and what it returns\<close>

lemma seqFields_Inr:
  "list_all2 (\<lambda>m fs. m = Inr fs) ms fss \<Longrightarrow> seqFields ms = Inr (concat fss)"
  by (induction ms fss rule: list_all2_induct) auto

lemma seqFields_map:
  "(\<And>x. x \<in> set xs \<Longrightarrow> f x = Inr (g x)) \<Longrightarrow> seqFields (map f xs) = Inr (concat (map g xs))"
  by (rule seqFields_Inr) (simp add: list_all2_conv_all_nth)

lemma seqFields2: "a = Inr x \<Longrightarrow> b = Inr y \<Longrightarrow> seqFields [a, b] = Inr (x @ y)"
  by simp

lemma directFields_simple_object:
  assumes "truthy props" "typeof props = ''object''"
  shows "directFields_simple h props t = Inr (filter (\<lambda>field. key_in h field props) t)"
proof -
  have "directFields_simple h props t
          = Inr (concat (map (\<lambda>field. if key_in h field props then [field] else []) t))"
    unfolding directFields_simple_def
    by (rule seqFields_map) (simp add: has_prop_object [OF assms])
  moreover have "concat (map (\<lambda>field. if key_in h field props then [field] else []) t)
      = filter (\<lambda>field. key_in h field props) t"
    by (induction t) auto
  ultimately show ?thesis by simp
qed

lemma walk_not_Unsupported: "truthy v \<Longrightarrow> walk h v segs \<noteq> Inl e"
proof (induction segs arbitrary: v)
  case Nil
  then show ?case by simp
next
  case (Cons seg segs)
  then show ?case by (simp add: get_prop_truthy)
qed

lemma resolveRef_cases:
  "truthy openApiDoc \<Longrightarrow>
     resolveRef h openApiDoc ref = Inl TypeError \<and> ref_target h openApiDoc ref = Undefined
     \<or> resolveRef h openApiDoc ref = Inr (ref_target h openApiDoc ref)"
  by (cases "resolveRef h openApiDoc ref")
     (auto simp: ref_target_def resolveRef_def refPath_def walk_not_Unsupported split: jsval.splits sum.splits)

lemma ref_section:
  assumes rec: "\<And>v. findFieldsInSchema_simple h v t (depth + 1) openApiDoc = Inr (rec v)"
  shows "(if truthy ref \<and> truthy openApiDoc
          then
            (case
               (case resolveRef h openApiDoc ref of
                  Inl e \<Rightarrow> Inl e
                | Inr resolvedSchema \<Rightarrow>
                    if truthy resolvedSchema
                    then findFieldsInSchema_simple h resolvedSchema t (depth + 1) openApiDoc
                    else Inr [])
             of
               Inl TypeError \<Rightarrow> Inr []
             | Inl Unsupported \<Rightarrow> Inl Unsupported
             | Inr nestedFields \<Rightarrow> Inr nestedFields)
          else Inr [])
       = Inr (if truthy ref \<and> truthy openApiDoc \<and> truthy (ref_target h openApiDoc ref)
              then rec (ref_target h openApiDoc ref) else [])"
proof (cases "truthy ref \<and> truthy openApiDoc")
  case False
  then show ?thesis by auto
next
  case True
  with resolveRef_cases [of openApiDoc h ref] show ?thesis
    by (auto simp: rec [simplified])
qed

lemma find_simple_unfold:
  assumes s: "truthy schema" "typeof schema = ''object''" and d: "depth \<le> 10"
    and rec: "\<And>v. findFieldsInSchema_simple h v t (depth + 1) openApiDoc = Inr (rec v)"
  shows "findFieldsInSchema_simple h schema t depth openApiDoc
           = Inr (new_Set (concat (node_fields_simple h rec openApiDoc schema t)))"
proof -
  have g: "get_prop h schema k = Inr (getp h schema k)" for k
    by (rule get_prop_truthy [OF s(1)])
  have guard: "\<not> (\<not> truthy schema \<or> typeof schema \<noteq> ''object'')" "\<not> depth > 10"
    using s d by auto
  note r = rec [simplified]
  have fin: "m = Inr fs \<Longrightarrow> (case m of Inl e \<Rightarrow> Inl e | Inr ff \<Rightarrow> Inr (new_Set ff)) = Inr (new_Set fs)"
    for m :: "failure + string list" and fs
    by simp
  show ?thesis
    apply (subst findFieldsInSchema_simple.simps)
    apply (simp only: guard if_False g sum.case)
    apply (rule fin)
    apply (rule seqFields_Inr)
    apply (simp only: node_fields_simple_def list_all2_Cons list_all2_Nil2 list.simps simp_thms)
    apply (intro conjI)
    subgoal by (rule ref_section) (rule rec)
    subgoal
      by (auto simp: get_prop_truthy r directFields_simple_object intro!: seqFields2 seqFields_map simp del: seqFields.simps)
    subgoal by (auto simp: r)
    subgoal by auto
    subgoal by (auto simp: r)
    subgoal by (auto simp: get_prop_truthy iterate_array r intro!: seqFields_map simp del: seqFields.simps)
    done
qed

lemma find_simple_leaf:
  "\<not> truthy schema \<or> typeof schema \<noteq> ''object'' \<or> depth > 10
     \<Longrightarrow> findFieldsInSchema_simple h schema t depth openApiDoc = Inr []"
  by (subst findFieldsInSchema_simple.simps) auto

lemma find_simple_total_aux:
  "11 - depth = n \<Longrightarrow>
     findFieldsInSchema_simple h schema t depth openApiDoc = Inr (found_simple h schema t depth openApiDoc)"
proof (induction n arbitrary: depth schema)
  case 0
  then have "depth > 10" by simp
  then show ?case by (simp add: find_simple_leaf found_simple_def)
next
  case (Suc n)
  then have d: "depth \<le> 10" and n: "11 - (depth + 1) = n" by simp_all
  show ?case
  proof (cases "truthy schema \<and> typeof schema = ''object''")
    case False
    then show ?thesis by (auto simp: find_simple_leaf found_simple_def)
  next
    case True
    then have s: "truthy schema" "typeof schema = ''object''" by simp_all
    have "findFieldsInSchema_simple h schema t depth openApiDoc
            = Inr (new_Set (concat (node_fields_simple h
                (\<lambda>v. found_simple h v t (depth + 1) openApiDoc) openApiDoc schema t)))"
      by (rule find_simple_unfold [OF s d]) (rule Suc.IH [OF n])
    then show ?thesis by (simp add: found_simple_def)
  qed
qed

lemma find_simple_total:
  "findFieldsInSchema_simple h schema t depth openApiDoc = Inr (found_simple h schema t depth openApiDoc)"
  by (rule find_simple_total_aux [OF refl])

lemma found_simple_simps:
  "found_simple h schema t depth openApiDoc =
     (if \<not> truthy schema \<or> typeof schema \<noteq> ''object'' \<or> depth > 10 then []
      else new_Set (concat (node_fields_simple h
             (\<lambda>v. found_simple h v t (depth + 1) openApiDoc) openApiDoc schema t)))"
proof (cases "\<not> truthy schema \<or> typeof schema \<noteq> ''object'' \<or> depth > 10")
  case True
  then show ?thesis by (simp add: found_simple_def find_simple_leaf)
next
  case False
  then have "findFieldsInSchema_simple h schema t depth openApiDoc
               = Inr (new_Set (concat (node_fields_simple h
                   (\<lambda>v. found_simple h v t (depth + 1) openApiDoc) openApiDoc schema t)))"
    by (intro find_simple_unfold find_simple_total) auto
  with False show ?thesis
    by (simp add: found_simple_def)
qed

section \<open>The result is a set of target fields\<close>

lemma set_foldl_set_add: "set (foldl set_add acc xs) = set acc \<union> set xs"
  by (induction xs arbitrary: acc) (auto simp: set_add_def)

lemma distinct_foldl_set_add: "distinct acc \<Longrightarrow> distinct (foldl set_add acc xs)"
  by (induction xs arbitrary: acc) (auto simp: set_add_def)

lemma set_new_Set [simp]: "set (new_Set xs) = set xs"
  by (simp add: new_Set_def set_foldl_set_add)

lemma distinct_new_Set [simp]: "distinct (new_Set xs)"
  by (simp add: new_Set_def distinct_foldl_set_add)

lemma node_fields_subset:
  assumes "\<And>v. set (rec v) \<subseteq> set t"
  shows "set (concat (node_fields h rec schema t)) \<subseteq> set t"
  using assms by (auto simp: node_fields_def split: if_splits)

lemma found_subset_aux: "11 - depth = n \<Longrightarrow> set (found h schema t depth) \<subseteq> set t"
proof (induction n arbitrary: depth schema)
  case 0
  then show ?case by (subst found_simps) simp
next
  case (Suc n)
  then have "set (found h v t (depth + 1)) \<subseteq> set t" for v by simp
  then have "set (concat (node_fields h (\<lambda>v. found h v t (depth + 1)) schema t)) \<subseteq> set t"
    by (rule node_fields_subset)
  then show ?case by (subst found_simps) simp
qed

lemma found_subset: "set (found h schema t depth) \<subseteq> set t"
  by (rule found_subset_aux [OF refl])

lemma found_distinct: "distinct (found h schema t depth)"
  by (subst found_simps) simp

lemma node_fields_simple_subset:
  assumes "\<And>v. set (rec v) \<subseteq> set t"
  shows "set (concat (node_fields_simple h rec doc schema t)) \<subseteq> set t"
  using assms by (auto simp: node_fields_simple_def split: if_splits)

lemma found_simple_subset_aux: "11 - depth = n \<Longrightarrow> set (found_simple h schema t depth doc) \<subseteq> set t"
proof (induction n arbitrary: depth schema)
  case 0
  then show ?case by (subst found_simple_simps) simp
next
  case (Suc n)
  then have "set (found_simple h v t (depth + 1) doc) \<subseteq> set t" for v by simp
  then have "set (concat (node_fields_simple h (\<lambda>v. found_simple h v t (depth + 1) doc) doc schema t)) \<subseteq> set t"
    by (rule node_fields_simple_subset)
  then show ?case by (subst found_simple_simps) simp
qed

lemma found_simple_subset: "set (found_simple h schema t depth doc) \<subseteq> set t"
  by (rule found_simple_subset_aux [OF refl])

lemma found_simple_distinct: "distinct (found_simple h schema t depth doc)"
  by (subst found_simple_simps) simp

section \<open>What each rule of the Finder contributes\<close>

lemma find_fields_eq:
  "findFieldsInSchema h schema t depth debug ctx = Inr (fs, lg) \<Longrightarrow> fs = found h schema t depth"
  using find_yields [of h schema t depth debug ctx] by simp

lemma find_returns_found:
  "\<exists>lg. findFieldsInSchema h schema t depth debug ctx = Inr (found h schema t depth, lg)"
  using find_yields [of h schema t depth debug ctx] by (auto dest!: yieldsE)

lemma get_prop_getp: "get_prop h v k = Inr x \<Longrightarrow> getp h v k = x"
  by (simp add: getp_def)

lemma found_set:
  assumes "truthy schema" "typeof schema = ''object''" "depth \<le> 10"
  shows "set (found h schema t depth)
           = set (concat (node_fields h (\<lambda>v. found h v t (depth + 1)) schema t))"
  using assms by (subst found_simps) simp

lemma node_fields_nth:
  "i < 8 \<Longrightarrow> set (node_fields h rec schema t ! i) \<subseteq> set (concat (node_fields h rec schema t))"
proof -
  assume "i < 8"
  moreover have "length (node_fields h rec schema t) = 8" by (simp add: node_fields_def)
  ultimately have "node_fields h rec schema t ! i \<in> set (node_fields h rec schema t)"
    by (metis nth_mem)
  then show ?thesis by auto
qed

lemma found_part:
  assumes "truthy schema" "typeof schema = ''object''" "depth \<le> 10" "i < 8"
  shows "set (node_fields h (\<lambda>v. found h v t (depth + 1)) schema t ! i)
           \<subseteq> set (found h schema t depth)"
  using node_fields_nth [OF assms(4)] by (simp only: found_set [OF assms(1-3)])

lemma found_all_targets:
  assumes s: "truthy schema" "typeof schema = ''object''" "depth \<le> 10"
    and i: "i < 8" "node_fields h (\<lambda>v. found h v t (depth + 1)) schema t ! i = t"
  shows "set (found h schema t depth) = set t"
proof
  show "set (found h schema t depth) \<subseteq> set t" by (rule found_subset)
  show "set t \<subseteq> set (found h schema t depth)"
    using node_fields_nth [OF i(1), of h "\<lambda>v. found h v t (depth + 1)" schema t] i(2)
    by (simp only: found_set [OF s])
qed

lemma found_direct:
  assumes s: "truthy schema" "typeof schema = ''object''" "depth \<le> 10"
    and p: "get_prop h schema ''properties'' = Inr props" "truthy props" "typeof props = ''object''"
    and f: "field \<in> set (enum_keys h props)" "field \<in> set t"
  shows "field \<in> set (found h schema t depth)"
proof -
  from p obtain a where "props = Ref a" using object_is_Ref by blast
  with f have "key_in h field props" by (simp add: key_in_def has_prop_def has_own_def)
  with p f have "field \<in> set (node_fields h (\<lambda>v. found h v t (depth + 1)) schema t ! 0)"
    by (simp add: node_fields_def get_prop_getp)
  then show ?thesis
    using found_part [OF s, of 0 h t] by auto
qed

lemma found_property:
  assumes s: "truthy schema" "typeof schema = ''object''" "depth \<le> 10"
    and p: "get_prop h schema ''properties'' = Inr props" "truthy props" "typeof props = ''object''"
    and k: "k \<in> set (enum_keys h props)" "get_prop h props k = Inr sub"
  shows "set (found h sub t (depth + 1)) \<subseteq> set (found h schema t depth)"
proof -
  from p k have "set (found h sub t (depth + 1))
      \<subseteq> set (node_fields h (\<lambda>v. found h v t (depth + 1)) schema t ! 0)"
    by (auto simp: node_fields_def get_prop_getp)
  then show ?thesis
    using found_part [OF s, of 0 h t] by auto
qed

lemma found_items:
  assumes s: "truthy schema" "typeof schema = ''object''" "depth \<le> 10"
    and p: "get_prop h schema ''items'' = Inr items" "truthy items"
  shows "set (found h items t (depth + 1)) \<subseteq> set (found h schema t depth)"
proof -
  from p have "set (found h items t (depth + 1))
      \<subseteq> set (node_fields h (\<lambda>v. found h v t (depth + 1)) schema t ! 1)"
    by (auto simp: node_fields_def get_prop_getp)
  then show ?thesis
    using found_part [OF s, of 1 h t] by auto
qed

lemma found_combined:
  assumes s: "truthy schema" "typeof schema = ''object''" "depth \<le> 10"
    and p: "key \<in> set combinedSchemas" "get_prop h schema key = Inr subs" "isArray h subs"
      "iterate h subs = Inr subSchemas" "sub \<in> set subSchemas"
  shows "set (found h sub t (depth + 1)) \<subseteq> set (found h schema t depth)"
proof -
  from p(3) have "truthy subs" by (cases subs) auto
  moreover from p have "elements h subs = subSchemas" by (simp add: elements_def)
  moreover from p have "getp h schema key = subs" by (simp add: get_prop_getp)
  ultimately have "set (found h sub t (depth + 1))
      \<subseteq> set (node_fields h (\<lambda>v. found h v t (depth + 1)) schema t ! 4)"
    using p(1,3,5) by (fastforce simp: node_fields_def)
  then show ?thesis
    using found_part [OF s, of 4 h t] by auto
qed

section \<open>Running the program on the sample document\<close>

text \<open>The definitions that a concrete run unfolds, and the objects of the sample heap.\<close>

lemmas js_eval =
  get_prop_def has_prop_def has_own_def inherited_names_def Object_prototype_def
  Array_prototype_def has_length_def enum_keys_def iterate_def indexed_def
  allTargets_def combinedSchemas_def logging_def opt_truthy_def new_Set_def set_add_def
  directFields_def logFieldDetection_def logPotential_def
  directFields_simple_def resolveRef_def refPath_def

lemma sample_at:
  "sample 0 = Obj [(''paths'', Ref 13), (''components'', Ref 30)]"
  "sample 2 = Obj [(''post'', Ref 3)]"
  "sample 3 = Obj [(''tags'', Ref 4), (''responses'', Ref 5)]"
  "sample 4 = Arr [Str ''auth'', Str ''users'']"
  "sample 5 = Obj [(''200'', Ref 6)]"
  "sample 6 = Obj [(''content'', Ref 7)]"
  "sample 7 = Obj [(''application/json'', Ref 8)]"
  "sample 8 = Obj [(''schema'', Ref 9)]"
  "sample 9 = Obj [(''properties'', Ref 20)]"
  "sample 10 = Obj [(''get'', Ref 11)]"
  "sample 11 = Obj [(''tags'', Ref 12), (''responses'', Ref 5)]"
  "sample 12 = Arr []"
  "sample 13 = Obj [(''/login'', Ref 2), (''/a'', Ref 10)]"
  "sample 20 = Obj [(''email'', Ref 21)]"
  "sample 21 = Obj [(''type'', Str ''string'')]"
  "sample 30 = Obj [(''schemas'', Ref 31)]"
  "sample 31 = Obj [(''User'', Ref 9)]"
  "sample 40 = Obj [(''properties'', Ref 41)]"
  "sample 41 = Obj [(''self'', Ref 40), (''id'', Ref 21)]"
  "sample 50 = Obj [(''type'', Str ''object'')]"
  "sample 51 = Obj [(''additionalProperties'', Bool True)]"
  "sample 52 = Obj [(''discriminator'', Ref 53)]"
  "sample 53 = Obj [(''propertyName'', Str ''kind''), (''mapping'', Ref 54)]"
  "sample 54 = Obj [(''cat'', Str ''#/components/schemas/User'')]"
  "sample 55 = Obj [(''type'', Str ''array''), (''items'', Ref 9)]"
  "sample 56 = Obj [(''allOf'', Ref 57)]"
  "sample 57 = Arr [Ref 21, Ref 9]"
  "sample 58 = Obj [(''patternProperties'', Ref 59)]"
  "sample 59 = Obj [(''^x-'', Ref 9)]"
  "sample 60 = Obj [(''$ref'', Str ''#/components/schemas/User'')]"
  "sample 61 = Obj [(''$ref'', Str ''#/components/schemas/Missing'')]"
  "sample 70 = Obj [(''info'', Ref 21)]"
  "sample 80 = Obj [(''paths'', Ref 81)]"
  "sample 81 = Obj [(''/login'', Ref 82)]"
  "sample 82 = Obj [(''post'', Ref 83)]"
  "sample 83 = Obj [(''tags'', Ref 84), (''responses'', Ref 5)]"
  "sample 84 = Arr [Str ''auth'', Str ''toString'']"
  by (simp_all add: sample_def)

lemmas scan_eval =
  extractResponseFieldPaths_def extractRequestFieldPaths_def extractFieldPaths_def
  extractGroupPaths_def scan_path_def response_method_def request_method_def response_step_def
  media_step_def field_step_def field_group_step_def groups_of_def group_path_def
  group_method_def group_step_def add_to_def sorted_arrays_def sorted_result_def
  initial_sets_def HTTP_METHODS_def DEFAULT_GROUP_def

section \<open>The Finder finds what the matching rules find\<close>

lemma discoverable_looked_at: "discoverable rules h doc t d schema f \<Longrightarrow> looked_at schema d"
  by (induction rule: discoverable.induct) auto

lemma isArray_truthy: "isArray h v \<Longrightarrow> truthy v"
  by (cases v) auto

lemma generate_types_rules_mem:
  "1 \<in> generate_types_rules" "2 \<in> generate_types_rules" "3 \<in> generate_types_rules"
  "4 \<in> generate_types_rules" "5 \<in> generate_types_rules" "6 \<in> generate_types_rules"
  "7 \<in> generate_types_rules" "8 \<in> generate_types_rules" "9 \<in> generate_types_rules"
  "10 \<in> generate_types_rules" "11 \<notin> generate_types_rules"
  by (simp_all add: generate_types_rules_def all_rules_def)

lemma simple_rules_mem:
  "1 \<in> simple_rules" "2 \<in> simple_rules" "3 \<in> simple_rules" "4 \<in> simple_rules"
  "5 \<in> simple_rules" "6 \<in> simple_rules" "7 \<in> simple_rules" "11 \<in> simple_rules"
  "10 \<in> simple_rules" "8 \<notin> simple_rules" "9 \<notin> simple_rules"
  by (simp_all add: simple_rules_def all_rules_def)

text \<open>An own key is seen by \<open>in\<close>; for a target that names no inherited member, nothing else is.\<close>

lemma has_own_key_in: "is_object v \<Longrightarrow> has_own h f v \<Longrightarrow> key_in h f v"
  by (cases v) (auto simp: key_in_def has_prop_def is_object_def)

lemma key_in_has_own:
  assumes "plain_targets t" "f \<in> set t" "key_in h f v"
  shows "has_own h f v"
proof -
  from assms(1,2) have "f \<notin> set Object_prototype" "f \<notin> set Array_prototype"
    by (auto simp: plain_targets_def list_all_iff)
  with assms(3) show ?thesis
    by (cases v) (auto simp: key_in_def has_prop_def inherited_names_def split: jsobj.splits)
qed

lemma discoverable_found:
  "discoverable generate_types_rules h doc t d schema f \<Longrightarrow> f \<in> set (found h schema t d)"
proof (induction rule: discoverable.induct)
  case (direct_key schema d f)
  then have "key_in h f (getp h schema ''properties'')"
    by (simp add: has_own_key_in)
  with direct_key have "f \<in> set (node_fields h (\<lambda>v. found h v t (d + 1)) schema t ! 0)"
    by (simp add: node_fields_def looked_at_def is_object_def)
  with direct_key(2) show ?case
    using found_part [of schema d 0 h t] by (auto simp: looked_at_def is_object_def)
next
  case (in_property schema d k f)
  then have "f \<in> set (node_fields h (\<lambda>v. found h v t (d + 1)) schema t ! 0)"
    by (auto simp: node_fields_def looked_at_def is_object_def)
  with in_property(2) show ?case
    using found_part [of schema d 0 h t] by (auto simp: looked_at_def is_object_def)
next
  case (in_items schema d f)
  from in_items(3) have "truthy (getp h schema ''items'')"
    by (auto dest!: discoverable_looked_at simp: looked_at_def is_object_def)
  with in_items have "f \<in> set (node_fields h (\<lambda>v. found h v t (d + 1)) schema t ! 1)"
    by (auto simp: node_fields_def)
  with in_items(2) show ?case
    using found_part [of schema d 1 h t] by (auto simp: looked_at_def is_object_def)
next
  case (dynamic_object schema d f)
  then have "f \<in> set (node_fields h (\<lambda>v. found h v t (d + 1)) schema t ! 2)"
    by (auto simp: node_fields_def)
  with dynamic_object(2) show ?case
    using found_part [of schema d 2 h t] by (auto simp: looked_at_def is_object_def)
next
  case (in_additionalProperties schema d f)
  from in_additionalProperties(3) have "looked_at (getp h schema ''additionalProperties'') (Suc d)"
    by (rule discoverable_looked_at)
  with in_additionalProperties have "f \<in> set (node_fields h (\<lambda>v. found h v t (d + 1)) schema t ! 3)"
    by (auto simp: node_fields_def looked_at_def is_object_def)
  with in_additionalProperties(2) show ?case
    using found_part [of schema d 3 h t] by (auto simp: looked_at_def is_object_def)
next
  case (additionalProperties_true schema d f)
  then have "f \<in> set (node_fields h (\<lambda>v. found h v t (d + 1)) schema t ! 3)"
    by (auto simp: node_fields_def)
  with additionalProperties_true(2) show ?case
    using found_part [of schema d 3 h t] by (auto simp: looked_at_def is_object_def)
next
  case (in_combined schema d key sub f)
  then have "f \<in> set (node_fields h (\<lambda>v. found h v t (d + 1)) schema t ! 4)"
    by (auto simp: node_fields_def combinedSchemas_def isArray_truthy)
  with in_combined(2) show ?case
    using found_part [of schema d 4 h t] by (auto simp: looked_at_def is_object_def)
next
  case (in_patternProperties schema d k f)
  then have "f \<in> set (node_fields h (\<lambda>v. found h v t (d + 1)) schema t ! 5)"
    by (auto simp: node_fields_def looked_at_def is_object_def)
  with in_patternProperties(2) show ?case
    using found_part [of schema d 5 h t] by (auto simp: looked_at_def is_object_def)
next
  case (discriminator_mapping schema d f)
  then have "f \<in> set (node_fields h (\<lambda>v. found h v t (d + 1)) schema t ! 6)"
    by (auto simp: node_fields_def)
  with discriminator_mapping(2) show ?case
    using found_part [of schema d 6 h t] by (auto simp: looked_at_def is_object_def)
next
  case (free_form schema d f)
  then have "f \<in> set (node_fields h (\<lambda>v. found h v t (d + 1)) schema t ! 7)"
    by (auto simp: node_fields_def)
  with free_form(2) show ?case
    using found_part [of schema d 7 h t] by (auto simp: looked_at_def is_object_def)
next
  case (via_reference schema d f)
  then show ?case by (simp add: generate_types_rules_mem)
qed

lemma node_fields_discoverable:
  assumes la: "looked_at schema d" and pt: "plain_targets t"
    and rec: "\<And>v f. f \<in> set (found h v t (Suc d))
                \<Longrightarrow> discoverable generate_types_rules h doc t (Suc d) v f"
    and f: "f \<in> set (concat (node_fields h (\<lambda>v. found h v t (d + 1)) schema t))"
  shows "discoverable generate_types_rules h doc t d schema f"
proof -
  note r = generate_types_rules_mem
  have len: "length (node_fields h (\<lambda>v. found h v t (d + 1)) schema t) = 8"
    by (simp add: node_fields_def)
  from f obtain p where "p \<in> set (node_fields h (\<lambda>v. found h v t (d + 1)) schema t)" "f \<in> set p"
    by auto
  then obtain part where part: "part < 8" "f \<in> set (node_fields h (\<lambda>v. found h v t (d + 1)) schema t ! part)"
    unfolding in_set_conv_nth len by blast
  then consider "part = 0" | "part = 1" | "part = 2" | "part = 3" | "part = 4" | "part = 5" | "part = 6" | "part = 7"
    by arith
  then show ?thesis
  proof cases
    case 1
    with part show ?thesis
      by (auto simp: node_fields_def looked_at_def is_object_def split: if_splits
          intro: discoverable.direct_key [OF r(1) la] discoverable.in_property [OF r(2) la]
          dest: rec key_in_has_own [OF pt])
  next
    case 2
    with part show ?thesis
      by (auto simp: node_fields_def split: if_splits
          intro: discoverable.in_items [OF r(3) la] dest: rec)
  next
    case 3
    with part show ?thesis
      by (auto simp: node_fields_def split: if_splits
          intro: discoverable.dynamic_object [OF r(4) la])
  next
    case 4
    with part show ?thesis
      by (auto simp: node_fields_def split: if_splits
          intro: discoverable.in_additionalProperties [OF r(5) la]
            discoverable.additionalProperties_true [OF r(6) la] dest: rec)
  next
    case 5
    with part show ?thesis
      by (auto simp: node_fields_def combinedSchemas_def split: if_splits
          intro: discoverable.in_combined [OF r(7) la] dest: rec)
  next
    case 6
    with part show ?thesis
      by (auto simp: node_fields_def looked_at_def is_object_def split: if_splits
          intro: discoverable.in_patternProperties [OF r(8) la] dest: rec)
  next
    case 7
    with part show ?thesis
      by (auto simp: node_fields_def split: if_splits
          intro: discoverable.discriminator_mapping [OF r(9) la])
  next
    case 8
    with part show ?thesis
      by (auto simp: node_fields_def split: if_splits
          intro: discoverable.free_form [OF r(10) la])
  qed
qed

lemma found_discoverable_aux:
  "11 - d = n \<Longrightarrow> plain_targets t \<Longrightarrow> f \<in> set (found h schema t d)
   \<Longrightarrow> discoverable generate_types_rules h doc t d schema f"
proof (induction n arbitrary: d schema f)
  case 0
  then show ?case by (subst (asm) found_simps) simp
next
  case (Suc n)
  from Suc.prems(3) have la: "looked_at schema d"
    by (subst (asm) found_simps) (auto simp: looked_at_def is_object_def split: if_splits)
  with Suc.prems(3)
  have "f \<in> set (concat (node_fields h (\<lambda>v. found h v t (d + 1)) schema t))"
    by (simp add: found_set looked_at_def is_object_def)
  moreover have "discoverable generate_types_rules h doc t (Suc d) v g"
    if "g \<in> set (found h v t (Suc d))" for v g
    using Suc.IH [of "Suc d" g v] Suc.prems(1,2) that by simp
  ultimately show ?case
    by (rule node_fields_discoverable [OF la Suc.prems(2), rotated])
qed

lemma found_is_discoverable:
  "plain_targets t \<Longrightarrow>
   set (found h schema t d) = {f. discoverable generate_types_rules h doc t d schema f}"
  using discoverable_found [of h doc t d schema] found_discoverable_aux [OF refl, of t _ h schema d doc]
  by blast

lemma found_simple_set:
  assumes "truthy schema" "typeof schema = ''object''" "depth \<le> 10"
  shows "set (found_simple h schema t depth doc)
           = set (concat (node_fields_simple h (\<lambda>v. found_simple h v t (depth + 1) doc) doc schema t))"
  using assms by (subst found_simple_simps) simp

lemma node_fields_simple_length: "length (node_fields_simple h rec doc schema t) = 6"
  by (simp add: node_fields_simple_def)

lemma found_simple_part:
  assumes "truthy schema" "typeof schema = ''object''" "depth \<le> 10" "i < 6"
  shows "set (node_fields_simple h (\<lambda>v. found_simple h v t (depth + 1) doc) doc schema t ! i)
           \<subseteq> set (found_simple h schema t depth doc)"
proof -
  have "node_fields_simple h (\<lambda>v. found_simple h v t (depth + 1) doc) doc schema t ! i
          \<in> set (node_fields_simple h (\<lambda>v. found_simple h v t (depth + 1) doc) doc schema t)"
    using assms(4) by (simp add: node_fields_simple_length)
  then have "set (node_fields_simple h (\<lambda>v. found_simple h v t (depth + 1) doc) doc schema t ! i)
      \<subseteq> set (concat (node_fields_simple h (\<lambda>v. found_simple h v t (depth + 1) doc) doc schema t))"
    by auto
  then show ?thesis
    by (simp only: found_simple_set [OF assms(1-3)])
qed

lemma discoverable_found_simple:
  "discoverable simple_rules h doc t d schema f \<Longrightarrow> f \<in> set (found_simple h schema t d doc)"
proof (induction rule: discoverable.induct)
  case (direct_key schema d f)
  then have "key_in h f (getp h schema ''properties'')"
    by (simp add: has_own_key_in)
  with direct_key have "f \<in> set (node_fields_simple h (\<lambda>v. found_simple h v t (d + 1) doc) doc schema t ! 1)"
    by (simp add: node_fields_simple_def looked_at_def is_object_def)
  with direct_key(2) show ?case
    using found_simple_part [of schema d 1 h t doc] by (auto simp: looked_at_def is_object_def)
next
  case (in_property schema d k f)
  then have "f \<in> set (node_fields_simple h (\<lambda>v. found_simple h v t (d + 1) doc) doc schema t ! 1)"
    by (auto simp: node_fields_simple_def looked_at_def is_object_def)
  with in_property(2) show ?case
    using found_simple_part [of schema d 1 h t doc] by (auto simp: looked_at_def is_object_def)
next
  case (in_items schema d f)
  from in_items(3) have "truthy (getp h schema ''items'')"
    by (auto dest!: discoverable_looked_at simp: looked_at_def is_object_def)
  with in_items have "f \<in> set (node_fields_simple h (\<lambda>v. found_simple h v t (d + 1) doc) doc schema t ! 2)"
    by (auto simp: node_fields_simple_def)
  with in_items(2) show ?case
    using found_simple_part [of schema d 2 h t doc] by (auto simp: looked_at_def is_object_def)
next
  case (dynamic_object schema d f)
  then have "f \<in> set (node_fields_simple h (\<lambda>v. found_simple h v t (d + 1) doc) doc schema t ! 3)"
    by (auto simp: node_fields_simple_def)
  with dynamic_object(2) show ?case
    using found_simple_part [of schema d 3 h t doc] by (auto simp: looked_at_def is_object_def)
next
  case (in_additionalProperties schema d f)
  from in_additionalProperties(3) have "looked_at (getp h schema ''additionalProperties'') (Suc d)"
    by (rule discoverable_looked_at)
  with in_additionalProperties have "f \<in> set (node_fields_simple h (\<lambda>v. found_simple h v t (d + 1) doc) doc schema t ! 4)"
    by (auto simp: node_fields_simple_def looked_at_def is_object_def)
  with in_additionalProperties(2) show ?case
    using found_simple_part [of schema d 4 h t doc] by (auto simp: looked_at_def is_object_def)
next
  case (additionalProperties_true schema d f)
  then have "f \<in> set (node_fields_simple h (\<lambda>v. found_simple h v t (d + 1) doc) doc schema t ! 4)"
    by (auto simp: node_fields_simple_def)
  with additionalProperties_true(2) show ?case
    using found_simple_part [of schema d 4 h t doc] by (auto simp: looked_at_def is_object_def)
next
  case (in_combined schema d key sub f)
  then have "f \<in> set (node_fields_simple h (\<lambda>v. found_simple h v t (d + 1) doc) doc schema t ! 5)"
    by (auto simp: node_fields_simple_def combinedSchemas_def isArray_truthy)
  with in_combined(2) show ?case
    using found_simple_part [of schema d 5 h t doc] by (auto simp: looked_at_def is_object_def)
next
  case (in_patternProperties schema d k f)
  then show ?case by (simp add: simple_rules_mem)
next
  case (discriminator_mapping schema d f)
  then show ?case by (simp add: simple_rules_mem)
next
  case (free_form schema d f)
  then have "f \<in> set (node_fields_simple h (\<lambda>v. found_simple h v t (d + 1) doc) doc schema t ! 3)"
    by (auto simp: node_fields_simple_def)
  with free_form(2) show ?case
    using found_simple_part [of schema d 3 h t doc] by (auto simp: looked_at_def is_object_def)
next
  case (via_reference schema d f)
  from via_reference(5) have "truthy (ref_target h doc (getp h schema ''$ref''))"
    by (auto dest!: discoverable_looked_at simp: looked_at_def is_object_def)
  with via_reference
  have "f \<in> set (node_fields_simple h (\<lambda>v. found_simple h v t (d + 1) doc) doc schema t ! 0)"
    by (simp add: node_fields_simple_def)
  with via_reference(2) show ?case
    using found_simple_part [of schema d 0 h t doc] by (auto simp: looked_at_def is_object_def)
qed

lemma node_fields_simple_discoverable:
  assumes la: "looked_at schema d" and pt: "plain_targets t"
    and rec: "\<And>v f. f \<in> set (found_simple h v t (Suc d) doc)
                \<Longrightarrow> discoverable simple_rules h doc t (Suc d) v f"
    and f: "f \<in> set (concat (node_fields_simple h (\<lambda>v. found_simple h v t (d + 1) doc) doc schema t))"
  shows "discoverable simple_rules h doc t d schema f"
proof -
  note r = simple_rules_mem
  from f obtain p where
    "p \<in> set (node_fields_simple h (\<lambda>v. found_simple h v t (d + 1) doc) doc schema t)" "f \<in> set p"
    by auto
  then obtain part where part: "part < 6"
    "f \<in> set (node_fields_simple h (\<lambda>v. found_simple h v t (d + 1) doc) doc schema t ! part)"
    unfolding in_set_conv_nth node_fields_simple_length by blast
  then consider "part = 0" | "part = 1" | "part = 2" | "part = 3" | "part = 4" | "part = 5"
    by arith
  then show ?thesis
  proof cases
    case 1
    with part show ?thesis
      by (auto simp: node_fields_simple_def split: if_splits
          intro: discoverable.via_reference [OF r(8) la] dest: rec)
  next
    case 2
    with part show ?thesis
      by (auto simp: node_fields_simple_def looked_at_def is_object_def split: if_splits
          intro: discoverable.direct_key [OF r(1) la] discoverable.in_property [OF r(2) la]
          dest: rec key_in_has_own [OF pt])
  next
    case 3
    with part show ?thesis
      by (auto simp: node_fields_simple_def split: if_splits
          intro: discoverable.in_items [OF r(3) la] dest: rec)
  next
    case 4
    with part show ?thesis
      by (auto simp: node_fields_simple_def split: if_splits
          intro: discoverable.dynamic_object [OF r(4) la])
  next
    case 5
    with part show ?thesis
      by (auto simp: node_fields_simple_def split: if_splits
          intro: discoverable.in_additionalProperties [OF r(5) la]
            discoverable.additionalProperties_true [OF r(6) la] dest: rec)
  next
    case 6
    with part show ?thesis
      by (auto simp: node_fields_simple_def combinedSchemas_def split: if_splits
          intro: discoverable.in_combined [OF r(7) la] dest: rec)
  qed
qed

lemma found_simple_discoverable_aux:
  "11 - d = n \<Longrightarrow> plain_targets t \<Longrightarrow> f \<in> set (found_simple h schema t d doc)
   \<Longrightarrow> discoverable simple_rules h doc t d schema f"
proof (induction n arbitrary: d schema f)
  case 0
  then show ?case by (subst (asm) found_simple_simps) simp
next
  case (Suc n)
  from Suc.prems(3) have la: "looked_at schema d"
    by (subst (asm) found_simple_simps) (auto simp: looked_at_def is_object_def split: if_splits)
  with Suc.prems(3)
  have "f \<in> set (concat (node_fields_simple h (\<lambda>v. found_simple h v t (d + 1) doc) doc schema t))"
    by (simp add: found_simple_set looked_at_def is_object_def)
  moreover have "discoverable simple_rules h doc t (Suc d) v g"
    if "g \<in> set (found_simple h v t (Suc d) doc)" for v g
    using Suc.IH [of "Suc d" g v] Suc.prems(1,2) that by simp
  ultimately show ?case
    by (rule node_fields_simple_discoverable [OF la Suc.prems(2), rotated])
qed

lemma found_simple_is_discoverable:
  "plain_targets t \<Longrightarrow>
   set (found_simple h schema t d doc) = {f. discoverable simple_rules h doc t d schema f}"
  using discoverable_found_simple [of h doc t d schema]
    found_simple_discoverable_aux [OF refl, of t _ h schema d doc]
  by blast

section \<open>A node with a reference\<close>

lemma walk_returns: "truthy v \<Longrightarrow> \<exists>r. walk h v segs = Inr r"
  using walk_not_Unsupported [of v h segs] by (cases "walk h v segs") auto

lemma found_simple_with_reference:
  assumes la: "looked_at schema depth"
    and ref: "get_prop h schema ''$ref'' = Inr (Str ref)" "ref \<noteq> []"
    and doc: "truthy openApiDoc"
    and w: "walk h openApiDoc (split_on CHR ''/'' (replace_first ''#/'' [] ref)) = Inr resolved"
  shows "found_simple h schema t depth openApiDoc =
           new_Set ((if truthy resolved then found_simple h resolved t (depth + 1) openApiDoc else [])
                    @ other_rules_simple h schema t depth openApiDoc)"
proof -
  let ?parts = "node_fields_simple h (\<lambda>v. found_simple h v t (depth + 1) openApiDoc) openApiDoc schema t"
  from ref(1) have g: "getp h schema ''$ref'' = Str ref" by (rule get_prop_getp)
  from w have rt: "ref_target h openApiDoc (Str ref) = resolved"
    by (simp add: ref_target_def resolveRef_def refPath_def)
  have "concat ?parts =
      (if truthy resolved then found_simple h resolved t (depth + 1) openApiDoc else [])
      @ other_rules_simple h schema t depth openApiDoc"
    using ref(2) doc by (simp add: node_fields_simple_def other_rules_simple_def g rt)
  with la show ?thesis
    by (subst found_simple_simps) (simp add: looked_at_def is_object_def)
qed

section \<open>The lists of paths are sorted and without duplicates\<close>

lemma foldE_invariant:
  assumes "foldE f xs s = Inr s'" "P s"
    and "\<And>x a b. x \<in> set xs \<Longrightarrow> P a \<Longrightarrow> f x a = Inr b \<Longrightarrow> P b"
  shows "P s'"
  using assms
proof (induction xs arbitrary: s)
  case Nil
  then show ?case by simp
next
  case (Cons x xs)
  from Cons.prems(1) obtain m where m: "f x s = Inr m" "foldE f xs m = Inr s'"
    by (auto split: sum.splits)
  from Cons.prems(3) [of x s m] m(1) Cons.prems(2) have "P m" by simp
  with m(2) show ?case
    by (rule Cons.IH) (use Cons.prems(3) in auto)
qed

lemma foldE_reaches:
  assumes "foldE f xs s = Inr s'" "x \<in> set xs"
    and "\<And>a b. f x a = Inr b \<Longrightarrow> Q b"
    and "\<And>y a b. y \<in> set xs \<Longrightarrow> Q a \<Longrightarrow> f y a = Inr b \<Longrightarrow> Q b"
  shows "Q s'"
  using assms
proof (induction xs arbitrary: s)
  case Nil
  then show ?case by simp
next
  case (Cons y ys)
  from Cons.prems(1) obtain m where m: "f y s = Inr m" "foldE f ys m = Inr s'"
    by (auto split: sum.splits)
  show ?case
  proof (cases "x = y")
    case True
    with m(1) Cons.prems(3) have "Q m" by simp
    with m(2) show ?thesis
    proof (rule foldE_invariant)
      show "Q b" if "z \<in> set ys" "Q a" "f z a = Inr b" for z a b
        using Cons.prems(4) [of z a b] that by simp
    qed
  next
    case False
    with Cons.prems(2) have "x \<in> set ys" by simp
    with m(2) show ?thesis
    proof (rule Cons.IH)
      show "Q b" if "f x a = Inr b" for a b
        using Cons.prems(3) that by simp
      show "Q b" if "z \<in> set ys" "Q a" "f z a = Inr b" for z a b
        using Cons.prems(4) [of z a b] that by simp
    qed
  qed
qed

lemma distinct_set_add: "distinct s \<Longrightarrow> distinct (set_add s x)"
  by (simp add: set_add_def)

lemma sets_distinct_add_to:
  "add_to rec key path = Inr rec' \<Longrightarrow> sets_distinct rec \<Longrightarrow> sets_distinct rec'"
  by (auto simp: sets_distinct_def add_to_def distinct_set_add split: option.splits if_splits)

lemma sets_distinct_empty [simp]: "sets_distinct Map.empty"
  by (simp add: sets_distinct_def)

lemma group_step_distinct:
  "group_step h path tag rec = Inr rec' \<Longrightarrow> sets_distinct rec \<Longrightarrow> sets_distinct rec'"
  by (auto simp: group_step_def split: sum.splits dest: sets_distinct_add_to)

lemma group_method_distinct:
  assumes "group_method h path pathItem method rec = Inr rec'" "sets_distinct rec"
  shows "sets_distinct rec'"
proof -
  have loop: "sets_distinct r'" if "foldE (group_step h path) groups rec = Inr r'" for groups r'
    using that assms(2) by (rule foldE_invariant [where P = sets_distinct]) (rule group_step_distinct)
  from assms show ?thesis
    by (auto simp: group_method_def split: sum.splits if_splits intro: loop
        dest: sets_distinct_add_to)
qed

lemma group_path_distinct:
  assumes "group_path h paths path rec = Inr rec'" "sets_distinct rec"
  shows "sets_distinct rec'"
proof -
  have loop: "sets_distinct r'" if "foldE (group_method h path pathItem) ms rec = Inr r'"
    for pathItem ms r'
    using that assms(2) by (rule foldE_invariant [where P = sets_distinct]) (rule group_method_distinct)
  from assms show ?thesis
    by (auto simp: group_path_def split: sum.splits if_splits intro: loop)
qed

lemma sorted_arrays_sorted:
  assumes "sets_distinct rec" "sorted_arrays rec key = Some ps"
  shows "sorted ps \<and> distinct ps \<and> ps = sorted_list_of_set (set ps)"
proof -
  from assms(2) obtain s where s: "rec key = Some s" "ps = sort s"
    by (auto simp: sorted_arrays_def)
  with assms(1) have "distinct s" by (auto simp: sets_distinct_def)
  with s(2) show ?thesis
    by (simp add: sorted_list_of_set_sort_remdups distinct_remdups_id)
qed

lemma extractGroupPaths_sorted:
  assumes "extractGroupPaths h openApi = Inr gp" "gp g = Some ps"
  shows "sorted ps \<and> distinct ps \<and> ps = sorted_list_of_set (set ps)"
proof -
  from assms obtain paths rec where
    f: "foldE (group_path h paths) (enum_keys h paths) Map.empty = Inr rec"
    and gp: "gp = sorted_arrays rec"
    by (auto simp: extractGroupPaths_def split: sum.splits if_splits)
  from f sets_distinct_empty have "sets_distinct rec"
    by (rule foldE_invariant [where P = sets_distinct]) (rule group_path_distinct)
  with assms(2) gp show ?thesis
    using sorted_arrays_sorted by blast
qed

lemma field_group_step_distinct:
  assumes "field_group_step path field tag st = Inr st'" "all_sets_distinct st"
  shows "all_sets_distinct st'"
proof -
  from assms(1) obtain rec g rec' where
    rec: "groupFieldPaths st field = Some rec"
    and add: "add_to rec g path = Inr rec'"
    and st': "st' = st\<lparr>groupFieldPaths := (groupFieldPaths st)(field \<mapsto> rec')\<rparr>"
    by (auto simp: field_group_step_def split: sum.splits option.splits)
  from assms(2) rec have "sets_distinct rec"
    by (auto simp: all_sets_distinct_def)
  with add have "sets_distinct rec'"
    by (rule sets_distinct_add_to)
  with assms(2) show ?thesis
    by (simp add: st' all_sets_distinct_def)
qed

lemma field_step_distinct:
  assumes "field_step h path tags field st = Inr st'" "all_sets_distinct st"
  shows "all_sets_distinct st'"
proof -
  from assms(1) obtain s groups where
    s: "fieldPaths st field = Some s"
    and f: "foldE (field_group_step path field) groups
              (st\<lparr>fieldPaths := (fieldPaths st)(field \<mapsto> set_add s path)\<rparr>) = Inr st'"
    by (auto simp: field_step_def split: sum.splits option.splits)
  from assms(2) s have "all_sets_distinct (st\<lparr>fieldPaths := (fieldPaths st)(field \<mapsto> set_add s path)\<rparr>)"
    by (auto simp: all_sets_distinct_def sets_distinct_def distinct_set_add)
  with f show ?thesis
    by (rule foldE_invariant [where P = all_sets_distinct]) (rule field_group_step_distinct)
qed

lemma media_step_distinct:
  assumes "media_step h t path method loc tags content mediaType st = Inr st'" "all_sets_distinct st"
  shows "all_sets_distinct st'"
proof -
  have loop: "all_sets_distinct r'" if "foldE (field_step h path tags) fs st = Inr r'" for fs r'
    using that assms(2) by (rule foldE_invariant [where P = all_sets_distinct]) (rule field_step_distinct)
  from assms show ?thesis
    by (auto simp: media_step_def split: sum.splits if_splits intro: loop)
qed

lemma response_step_distinct:
  assumes "response_step h t path method tags responses code st = Inr st'" "all_sets_distinct st"
  shows "all_sets_distinct st'"
proof -
  have loop: "all_sets_distinct r'"
    if "foldE (media_step h t path method Response tags content) ks st = Inr r'" for content ks r'
    using that assms(2) by (rule foldE_invariant [where P = all_sets_distinct]) (rule media_step_distinct)
  from assms show ?thesis
    by (auto simp: response_step_def split: sum.splits if_splits intro: loop)
qed

lemma response_method_distinct:
  assumes "response_method h t path pathItem method st = Inr st'" "all_sets_distinct st"
  shows "all_sets_distinct st'"
proof -
  have loop: "all_sets_distinct r'"
    if "foldE (response_step h t path method tags responses) ks st = Inr r'" for tags responses ks r'
    using that assms(2) by (rule foldE_invariant [where P = all_sets_distinct]) (rule response_step_distinct)
  from assms show ?thesis
    by (auto simp: response_method_def split: sum.splits if_splits intro: loop)
qed

lemma request_method_distinct:
  assumes "request_method h t path pathItem method st = Inr st'" "all_sets_distinct st"
  shows "all_sets_distinct st'"
proof -
  have loop: "all_sets_distinct r'"
    if "foldE (media_step h t path method Request tags content) ks st = Inr r'" for tags content ks r'
    using that assms(2) by (rule foldE_invariant [where P = all_sets_distinct]) (rule media_step_distinct)
  from assms show ?thesis
    by (auto simp: request_method_def split: sum.splits if_splits intro: loop)
qed

lemma scan_path_distinct:
  assumes "scan_path h per_method paths path st = Inr st'" "all_sets_distinct st"
    and "\<And>p item m a b. per_method p item m a = Inr b \<Longrightarrow> all_sets_distinct a \<Longrightarrow> all_sets_distinct b"
  shows "all_sets_distinct st'"
proof -
  have loop: "all_sets_distinct r'"
    if "foldE (per_method path pathItem) ms st = Inr r'" for pathItem ms r'
    using that assms(2) by (rule foldE_invariant [where P = all_sets_distinct]) (rule assms(3))
  from assms(1,2) show ?thesis
    by (auto simp: scan_path_def split: sum.splits if_splits intro: loop)
qed

lemma initial_step_distinct:
  assumes "all_sets_distinct st"
  shows "all_sets_distinct \<lparr>fieldPaths = (fieldPaths st)(field \<mapsto> []),
           groupFieldPaths = (groupFieldPaths st)(field \<mapsto> Map.empty)\<rparr>"
proof -
  from assms have "sets_distinct ((fieldPaths st)(field \<mapsto> []))"
    by (simp add: all_sets_distinct_def sets_distinct_def)
  moreover have "sets_distinct rec"
    if "((groupFieldPaths st)(field \<mapsto> Map.empty)) f = Some rec" for f rec
  proof (cases "f = field")
    case True
    with that have "Map.empty = rec" by simp
    from this [symmetric] show ?thesis by simp
  next
    case False
    with that assms show ?thesis by (simp add: all_sets_distinct_def)
  qed
  ultimately show ?thesis
    by (simp only: all_sets_distinct_def field_paths.simps) blast
qed

lemma initial_sets_distinct_aux:
  "all_sets_distinct st \<Longrightarrow>
   all_sets_distinct (fold (\<lambda>field st. \<lparr>fieldPaths = (fieldPaths st)(field \<mapsto> []),
                          groupFieldPaths = (groupFieldPaths st)(field \<mapsto> Map.empty)\<rparr>) t st)"
proof (induction t arbitrary: st)
  case Nil
  then show ?case by simp
next
  case (Cons field t)
  from Cons.prems have "all_sets_distinct \<lparr>fieldPaths = (fieldPaths st)(field \<mapsto> []),
           groupFieldPaths = (groupFieldPaths st)(field \<mapsto> Map.empty)\<rparr>"
    by (rule initial_step_distinct)
  then show ?case
    using Cons.IH by (simp only: fold_simps)
qed

lemma initial_sets_distinct: "all_sets_distinct (initial_sets t)"
  unfolding initial_sets_def
  by (rule initial_sets_distinct_aux) (simp add: all_sets_distinct_def)

lemma map_of_constant: "map_of (map (\<lambda>x. (x, c)) xs) k = (if k \<in> set xs then Some c else None)"
  by (induction xs) auto

lemma extractFieldPaths_sorted:
  assumes run: "extractFieldPaths h per_method openApi t = Inr r"
    and pm: "\<And>p item m a b. per_method p item m a = Inr b \<Longrightarrow> all_sets_distinct a \<Longrightarrow> all_sets_distinct b"
  shows "(fieldPaths r field = Some ps \<longrightarrow> sorted ps \<and> distinct ps \<and> ps = sorted_list_of_set (set ps))
       \<and> (groupFieldPaths r field = Some gm \<and> gm g = Some ps
            \<longrightarrow> sorted ps \<and> distinct ps \<and> ps = sorted_list_of_set (set ps))"
proof -
  from run obtain paths where p: "get_prop h openApi ''paths'' = Inr paths"
    by (auto simp: extractFieldPaths_def split: sum.splits)
  show ?thesis
  proof (cases "truthy paths")
    case False
    with run p have "r = \<lparr>fieldPaths = map_of (map (\<lambda>field. (field, [])) t),
                    groupFieldPaths = map_of (map (\<lambda>field. (field, Map.empty)) t)\<rparr>"
      by (simp add: extractFieldPaths_def)
    then show ?thesis
      by (auto simp: map_of_constant split: if_splits)
  next
    case True
    with run p obtain st where
      f: "foldE (scan_path h per_method paths) (enum_keys h paths) (initial_sets t) = Inr st"
      and r: "r = sorted_result st"
      by (auto simp: extractFieldPaths_def split: sum.splits if_splits)
    from f initial_sets_distinct have d: "all_sets_distinct st"
    proof (rule foldE_invariant [where P = all_sets_distinct])
      show "all_sets_distinct b"
        if "all_sets_distinct a" "scan_path h per_method paths x a = Inr b" for x a b
        using that(2,1) by (rule scan_path_distinct) (rule pm)
    qed
    have one: "sorted ps \<and> distinct ps \<and> ps = sorted_list_of_set (set ps)"
      if "fieldPaths r field = Some ps"
      using that d r sorted_arrays_sorted [of "fieldPaths st" field ps]
      by (simp add: sorted_result_def all_sets_distinct_def)
    have two: "sorted ps \<and> distinct ps \<and> ps = sorted_list_of_set (set ps)"
      if gm: "groupFieldPaths r field = Some gm" "gm g = Some ps"
    proof (cases "groupFieldPaths st field")
      case None
      with gm r show ?thesis
        by (auto simp: sorted_result_def split: option.splits)
    next
      case (Some rec)
      with gm r have "gm = sorted_arrays rec"
        by (auto simp: sorted_result_def split: option.splits)
      moreover from d Some have "sets_distinct rec"
        by (simp add: all_sets_distinct_def)
      ultimately show ?thesis
        using gm(2) sorted_arrays_sorted [of rec g ps] by simp
    qed
    from one two show ?thesis by blast
  qed
qed

section \<open>A found field reaches the bucket of every tag\<close>

lemma set_set_add [simp]: "set (set_add s x) = insert x (set s)"
  by (auto simp: set_add_def)

lemma add_to_apply:
  "add_to rec key path = Inr rec' \<Longrightarrow>
   rec' k =
     (if k = key then Some (set_add (case rec key of None \<Rightarrow> [] | Some s \<Rightarrow> s) path) else rec k)"
  by (auto simp: add_to_def split: option.splits if_splits)

lemma field_group_step_cases:
  assumes "field_group_step path' field' tag st = Inr st'"
  obtains rec g rec' where "groupFieldPaths st field' = Some rec" "to_key tag = Inr g"
    "fieldPaths st' = fieldPaths st" "add_to rec g path' = Inr rec'"
    "groupFieldPaths st' = (groupFieldPaths st)(field' \<mapsto> rec')"
  using assms by (auto simp: field_group_step_def split: sum.splits option.splits)

lemma field_group_step_keeps:
  assumes "field_group_step path' field' tag st = Inr st'" "reached st field g path"
  shows "reached st' field g path"
proof -
  from assms(1) obtain rec g' rec' where
    s: "groupFieldPaths st field' = Some rec" "fieldPaths st' = fieldPaths st"
      "groupFieldPaths st' = (groupFieldPaths st)(field' \<mapsto> rec')"
    and add: "add_to rec g' path' = Inr rec'"
    by (rule field_group_step_cases)
  from assms(2) s(2) have "in_field_set st' field path"
    by (simp add: reached_def in_field_set_def)
  moreover from assms(2) s(1,3) have "in_group_bucket st' field g path"
    by (auto simp: reached_def in_group_bucket_def add_to_apply [OF add] split: option.splits)
  ultimately show ?thesis by (simp add: reached_def)
qed

lemma field_group_step_adds:
  assumes "field_group_step path field (Str tag) st = Inr st'" "in_field_set st field path"
  shows "reached st' field tag path"
proof -
  from assms(1) obtain rec g rec' where
    s: "to_key (Str tag) = Inr g" "fieldPaths st' = fieldPaths st"
      "groupFieldPaths st' = (groupFieldPaths st)(field \<mapsto> rec')"
    and add: "add_to rec g path = Inr rec'"
    by (rule field_group_step_cases)
  from s(1) have "g = tag" by simp
  with s(3) have "in_group_bucket st' field tag path"
    by (simp add: in_group_bucket_def add_to_apply [OF add])
  with assms(2) s(2) show ?thesis
    by (simp add: reached_def in_field_set_def)
qed

lemma field_group_step_field_set:
  assumes "field_group_step path' field' tag st = Inr st'" "in_field_set st field path"
  shows "in_field_set st' field path"
  using assms by (auto simp: in_field_set_def elim!: field_group_step_cases)

lemma field_step_cases:
  assumes "field_step h path' tags field' st = Inr st'"
  obtains s groups where "fieldPaths st field' = Some s" "groups_of h tags = Inr groups"
    "foldE (field_group_step path' field') groups
       (st\<lparr>fieldPaths := (fieldPaths st)(field' \<mapsto> set_add s path')\<rparr>) = Inr st'"
  using assms by (auto simp: field_step_def split: sum.splits option.splits)

lemma field_step_keeps:
  assumes "field_step h path' tags field' st = Inr st'" "reached st field g path"
  shows "reached st' field g path"
proof -
  from assms(1) obtain s groups where
    s: "fieldPaths st field' = Some s"
    and f: "foldE (field_group_step path' field') groups
       (st\<lparr>fieldPaths := (fieldPaths st)(field' \<mapsto> set_add s path')\<rparr>) = Inr st'"
    by (rule field_step_cases)
  from assms(2) s
  have "reached (st\<lparr>fieldPaths := (fieldPaths st)(field' \<mapsto> set_add s path')\<rparr>) field g path"
    by (auto simp: reached_def in_field_set_def in_group_bucket_def)
  with f show ?thesis
    by (rule foldE_invariant [where P = "\<lambda>st. reached st field g path"])
       (rule field_group_step_keeps)
qed

lemma field_step_adds:
  assumes "field_step h path tags field st = Inr st'"
    and "groups_of h tags = Inr groups" "Str tag \<in> set groups"
  shows "reached st' field tag path"
proof -
  from assms(1,2) obtain s where
    s: "fieldPaths st field = Some s"
    and f: "foldE (field_group_step path field) groups
       (st\<lparr>fieldPaths := (fieldPaths st)(field \<mapsto> set_add s path)\<rparr>) = Inr st'"
    by (auto elim!: field_step_cases)
  let ?st = "st\<lparr>fieldPaths := (fieldPaths st)(field \<mapsto> set_add s path)\<rparr>"
  have start: "in_field_set ?st field path"
    by (simp add: in_field_set_def)
  have inv: "in_field_set st' field path"
    using f start
    by (rule foldE_invariant [where P = "\<lambda>st. in_field_set st field path"])
       (rule field_group_step_field_set)
  have "in_field_set st' field path \<longrightarrow> reached st' field tag path"
    using f assms(3)
  proof (rule foldE_reaches [where Q = "\<lambda>st. in_field_set st field path \<longrightarrow> reached st field tag path"])
    show "in_field_set b field path \<longrightarrow> reached b field tag path"
      if "field_group_step path field (Str tag) a = Inr b" for a b
    proof
      assume "in_field_set b field path"
      with that have "in_field_set a field path"
        by (auto simp: in_field_set_def elim!: field_group_step_cases)
      with that show "reached b field tag path" by (rule field_group_step_adds)
    qed
    show "in_field_set b field path \<longrightarrow> reached b field tag path"
      if "y \<in> set groups" "in_field_set a field path \<longrightarrow> reached a field tag path"
        "field_group_step path field y a = Inr b" for y a b
    proof
      assume "in_field_set b field path"
      with that(3) have "in_field_set a field path"
        by (auto simp: in_field_set_def elim!: field_group_step_cases)
      with that(2) have "reached a field tag path" by simp
      with that(3) show "reached b field tag path" by (rule field_group_step_keeps)
    qed
  qed
  with inv show ?thesis by simp
qed

lemma media_step_keeps:
  assumes "media_step h t path' method loc tags content mediaType st = Inr st'"
    "reached st field g path"
  shows "reached st' field g path"
proof -
  have loop: "reached r' field g path" if "foldE (field_step h path' tags) fs st = Inr r'" for fs r'
    using that assms(2)
    by (rule foldE_invariant [where P = "\<lambda>st. reached st field g path"]) (rule field_step_keeps)
  from assms show ?thesis
    by (auto simp: media_step_def split: sum.splits if_splits intro: loop)
qed

lemma media_step_adds:
  assumes run: "media_step h t path method loc tags content mediaType st = Inr st'"
    and m: "get_prop h content mediaType = Inr mediaObj" "get_prop h mediaObj ''schema'' = Inr schema"
      "truthy schema"
    and f: "field \<in> set (found h schema t 0)"
    and g: "groups_of h tags = Inr groups" "Str tag \<in> set groups"
  shows "reached st' field tag path"
proof -
  let ?ctx = "\<lparr>ctx_path = Some path, ctx_method = Some method, ctx_location = Some loc\<rparr>"
  obtain lg where "findFieldsInSchema h schema t 0 True ?ctx = Inr (found h schema t 0, lg)"
    using find_returns_found by blast
  with run m have "foldE (field_step h path tags) (found h schema t 0) st = Inr st'"
    by (simp add: media_step_def)
  then show ?thesis
    using f
  proof (rule foldE_reaches [where Q = "\<lambda>st. reached st field tag path"])
    show "reached b field tag path" if "field_step h path tags field a = Inr b" for a b
      using that g by (rule field_step_adds)
    show "reached b field tag path"
      if "reached a field tag path" "field_step h path tags y a = Inr b" for y a b
      using that(2,1) by (rule field_step_keeps)
  qed
qed

lemma response_step_keeps:
  assumes "response_step h t path' method tags responses code st = Inr st'" "reached st field g path"
  shows "reached st' field g path"
proof -
  have loop: "reached r' field g path"
    if "foldE (media_step h t path' method Response tags content) ks st = Inr r'" for content ks r'
    using that assms(2)
    by (rule foldE_invariant [where P = "\<lambda>st. reached st field g path"]) (rule media_step_keeps)
  from assms show ?thesis
    by (auto simp: response_step_def split: sum.splits if_splits intro: loop)
qed

lemma response_step_adds:
  assumes run: "response_step h t path method tags responses code st = Inr st'"
    and r: "get_prop h responses code = Inr response" "truthy response"
      "get_prop h response ''content'' = Inr content" "truthy content"
      "mediaType \<in> set (enum_keys h content)"
    and m: "get_prop h content mediaType = Inr mediaObj" "get_prop h mediaObj ''schema'' = Inr schema"
      "truthy schema"
    and f: "field \<in> set (found h schema t 0)"
    and g: "groups_of h tags = Inr groups" "Str tag \<in> set groups"
  shows "reached st' field tag path"
proof -
  from run r have "foldE (media_step h t path method Response tags content) (enum_keys h content) st = Inr st'"
    by (simp add: response_step_def)
  then show ?thesis
    using r(5)
  proof (rule foldE_reaches [where Q = "\<lambda>st. reached st field tag path"])
    show "reached b field tag path"
      if "media_step h t path method Response tags content mediaType a = Inr b" for a b
      using that m f g by (rule media_step_adds)
    show "reached b field tag path"
      if "reached a field tag path" "media_step h t path method Response tags content y a = Inr b"
      for y a b
      using that(2,1) by (rule media_step_keeps)
  qed
qed

lemma response_method_keeps:
  assumes "response_method h t path' pathItem method st = Inr st'" "reached st field g path"
  shows "reached st' field g path"
proof -
  have loop: "reached r' field g path"
    if "foldE (response_step h t path' method tags responses) ks st = Inr r'" for tags responses ks r'
    using that assms(2)
    by (rule foldE_invariant [where P = "\<lambda>st. reached st field g path"]) (rule response_step_keeps)
  from assms show ?thesis
    by (auto simp: response_method_def split: sum.splits if_splits intro: loop)
qed

lemma response_method_adds:
  assumes run: "response_method h t path pathItem method st = Inr st'"
    and o: "get_prop h pathItem method = Inr operation" "truthy operation"
      "get_prop h operation ''responses'' = Inr responses" "truthy responses"
      "get_prop h operation ''tags'' = Inr tags" "code \<in> set (enum_keys h responses)"
    and r: "get_prop h responses code = Inr response" "truthy response"
      "get_prop h response ''content'' = Inr content" "truthy content"
      "mediaType \<in> set (enum_keys h content)"
    and m: "get_prop h content mediaType = Inr mediaObj" "get_prop h mediaObj ''schema'' = Inr schema"
      "truthy schema"
    and f: "field \<in> set (found h schema t 0)"
    and g: "groups_of h tags = Inr groups" "Str tag \<in> set groups"
  shows "reached st' field tag path"
proof -
  from run o have "foldE (response_step h t path method tags responses) (enum_keys h responses) st = Inr st'"
    by (simp add: response_method_def)
  then show ?thesis
    using o(6)
  proof (rule foldE_reaches [where Q = "\<lambda>st. reached st field tag path"])
    show "reached b field tag path"
      if "response_step h t path method tags responses code a = Inr b" for a b
      using that r m f g by (rule response_step_adds)
    show "reached b field tag path"
      if "reached a field tag path" "response_step h t path method tags responses y a = Inr b"
      for y a b
      using that(2,1) by (rule response_step_keeps)
  qed
qed

lemma scan_path_keeps:
  assumes "scan_path h (response_method h t) paths path' st = Inr st'" "reached st field g path"
  shows "reached st' field g path"
proof -
  have loop: "reached r' field g path"
    if "foldE (response_method h t path' pathItem) ms st = Inr r'" for pathItem ms r'
    using that assms(2)
    by (rule foldE_invariant [where P = "\<lambda>st. reached st field g path"]) (rule response_method_keeps)
  from assms show ?thesis
    by (auto simp: scan_path_def split: sum.splits if_splits intro: loop)
qed

lemma scan_path_adds:
  assumes run: "scan_path h (response_method h t) paths path st = Inr st'"
    and p: "get_prop h paths path = Inr pathItem" "truthy pathItem" "method \<in> set HTTP_METHODS"
    and o: "get_prop h pathItem method = Inr operation" "truthy operation"
      "get_prop h operation ''responses'' = Inr responses" "truthy responses"
      "get_prop h operation ''tags'' = Inr tags" "code \<in> set (enum_keys h responses)"
    and r: "get_prop h responses code = Inr response" "truthy response"
      "get_prop h response ''content'' = Inr content" "truthy content"
      "mediaType \<in> set (enum_keys h content)"
    and m: "get_prop h content mediaType = Inr mediaObj" "get_prop h mediaObj ''schema'' = Inr schema"
      "truthy schema"
    and f: "field \<in> set (found h schema t 0)"
    and g: "groups_of h tags = Inr groups" "Str tag \<in> set groups"
  shows "reached st' field tag path"
proof -
  from run p have "foldE (response_method h t path pathItem) HTTP_METHODS st = Inr st'"
    by (simp add: scan_path_def)
  then show ?thesis
    using p(3)
  proof (rule foldE_reaches [where Q = "\<lambda>st. reached st field tag path"])
    show "reached b field tag path"
      if "response_method h t path pathItem method a = Inr b" for a b
      using that o r m f g by (rule response_method_adds)
    show "reached b field tag path"
      if "reached a field tag path" "response_method h t path pathItem y a = Inr b" for y a b
      using that(2,1) by (rule response_method_keeps)
  qed
qed

lemma sorted_result_reached:
  assumes "reached st field g path"
  shows "\<exists>ps gm qs. fieldPaths (sorted_result st) field = Some ps \<and> path \<in> set ps
     \<and> groupFieldPaths (sorted_result st) field = Some gm \<and> gm g = Some qs \<and> path \<in> set qs"
  using assms
  by (auto simp: reached_def in_field_set_def in_group_bucket_def sorted_result_def sorted_arrays_def
      split: option.splits)

lemma response_scan_reaches:
  assumes run: "extractResponseFieldPaths h openApi t = Inr r"
    and d: "get_prop h openApi ''paths'' = Inr paths" "truthy paths" "path \<in> set (enum_keys h paths)"
    and p: "get_prop h paths path = Inr pathItem" "truthy pathItem" "method \<in> set HTTP_METHODS"
    and o: "get_prop h pathItem method = Inr operation" "truthy operation"
      "get_prop h operation ''responses'' = Inr responses" "truthy responses"
      "get_prop h operation ''tags'' = Inr tags" "code \<in> set (enum_keys h responses)"
    and rs: "get_prop h responses code = Inr response" "truthy response"
      "get_prop h response ''content'' = Inr content" "truthy content"
      "mediaType \<in> set (enum_keys h content)"
    and m: "get_prop h content mediaType = Inr mediaObj" "get_prop h mediaObj ''schema'' = Inr schema"
      "truthy schema"
    and f: "field \<in> set (found h schema t 0)"
    and g: "groups_of h tags = Inr groups" "Str tag \<in> set groups"
  shows "\<exists>ps gm qs. fieldPaths r field = Some ps \<and> path \<in> set ps
     \<and> groupFieldPaths r field = Some gm \<and> gm tag = Some qs \<and> path \<in> set qs"
proof -
  from run d obtain st where
    fold: "foldE (scan_path h (response_method h t) paths) (enum_keys h paths) (initial_sets t) = Inr st"
    and res: "r = sorted_result st"
    by (auto simp: extractResponseFieldPaths_def extractFieldPaths_def split: sum.splits if_splits)
  from fold d(3) have "reached st field tag path"
  proof (rule foldE_reaches [where Q = "\<lambda>st. reached st field tag path"])
    show "reached b field tag path"
      if "scan_path h (response_method h t) paths path a = Inr b" for a b
      using that p o rs m f g by (rule scan_path_adds)
    show "reached b field tag path"
      if "reached a field tag path" "scan_path h (response_method h t) paths y a = Inr b" for y a b
      using that(2,1) by (rule scan_path_keeps)
  qed
  then show ?thesis
    unfolding res by (rule sorted_result_reached)
qed

text \<open>The part of C1 that the code does have: absent tags put the path under the default group.\<close>

lemma untagged_operation_reaches_default:
  assumes run: "extractResponseFieldPaths h openApi t = Inr r"
    and d: "get_prop h openApi ''paths'' = Inr paths" "truthy paths" "path \<in> set (enum_keys h paths)"
    and p: "get_prop h paths path = Inr pathItem" "truthy pathItem" "method \<in> set HTTP_METHODS"
    and o: "get_prop h pathItem method = Inr operation" "truthy operation"
      "get_prop h operation ''responses'' = Inr responses" "truthy responses"
      "get_prop h operation ''tags'' = Inr Undefined" "code \<in> set (enum_keys h responses)"
    and rs: "get_prop h responses code = Inr response" "truthy response"
      "get_prop h response ''content'' = Inr content" "truthy content"
      "mediaType \<in> set (enum_keys h content)"
    and m: "get_prop h content mediaType = Inr mediaObj" "get_prop h mediaObj ''schema'' = Inr schema"
      "truthy schema"
    and f: "field \<in> set (found h schema t 0)"
  shows "\<exists>ps gm qs. fieldPaths r field = Some ps \<and> path \<in> set ps
     \<and> groupFieldPaths r field = Some gm \<and> gm DEFAULT_GROUP = Some qs \<and> path \<in> set qs"
proof -
  have g: "groups_of h Undefined = Inr [Str DEFAULT_GROUP]" "Str DEFAULT_GROUP \<in> set [Str DEFAULT_GROUP]"
    by (simp_all add: groups_of_def)
  show ?thesis
    by (rule response_scan_reaches [OF run d p o rs m f g])
qed

section \<open>Inherited names\<close>

text \<open>
  The Finder tests \<open>field in schema.properties\<close>, and \<open>in\<close> also sees the members of
  \<open>Object.prototype\<close>: for the target \<open>constructor\<close>, which is no key of the properties at
  address 20, both Finders report it.
\<close>

lemma inherited_name_is_reported:
  "\<not> has_own sample ''constructor'' (Ref 20)
   \<and> findFieldsInSchema sample (Ref 9) [''constructor'', ''email''] 0 False no_context
       = Inr ([''constructor'', ''email''], [])
   \<and> findFieldsInSchema_simple sample (Ref 9) [''constructor'', ''email''] 0 (Ref 0)
       = Inr [''constructor'', ''email'']"
  by (simp add: findFieldsInSchema.simps findFieldsInSchema_simple.simps sample_at
      no_context_def js_eval)

section \<open>The scan of the sample document, and of a document without paths\<close>

lemma sample_response_scan:
  "\<exists>r gm. extractResponseFieldPaths sample (Ref 0) [''email''] = Inr r
     \<and> fieldPaths r ''email'' = Some [''/a'', ''/login'']
     \<and> groupFieldPaths r ''email'' = Some gm
     \<and> gm ''auth'' = Some [''/login''] \<and> gm ''users'' = Some [''/login'']
     \<and> gm ''default'' = None"
proof -
  have "case extractResponseFieldPaths sample (Ref 0) [''email''] of
      Inl e \<Rightarrow> False
    | Inr r \<Rightarrow> fieldPaths r ''email'' = Some [''/a'', ''/login'']
        \<and> (case groupFieldPaths r ''email'' of None \<Rightarrow> False
            | Some gm \<Rightarrow> gm ''auth'' = Some [''/login''] \<and> gm ''users'' = Some [''/login'']
                \<and> gm ''default'' = None)"
    by (simp add: scan_eval findFieldsInSchema.simps sample_at js_eval)
  then show ?thesis
    by (auto split: sum.splits option.splits)
qed

lemma sample_group_scan:
  "\<exists>gp. extractGroupPaths sample (Ref 0) = Inr gp
     \<and> gp ''default'' = Some [''/a''] \<and> gp ''auth'' = Some [''/login'']
     \<and> gp ''users'' = Some [''/login'']"
proof -
  have "case extractGroupPaths sample (Ref 0) of
      Inl e \<Rightarrow> False
    | Inr gp \<Rightarrow> gp ''default'' = Some [''/a''] \<and> gp ''auth'' = Some [''/login'']
        \<and> gp ''users'' = Some [''/login'']"
    by (simp add: scan_eval sample_at js_eval)
  then show ?thesis
    by (auto split: sum.splits)
qed

lemma extractFieldPaths_no_paths:
  assumes "get_prop h openApi ''paths'' = Inr paths" "\<not> truthy paths"
  shows "extractFieldPaths h per_method openApi t =
     Inr \<lparr>fieldPaths = (\<lambda>field. if field \<in> set t then Some [] else None),
          groupFieldPaths = (\<lambda>field. if field \<in> set t then Some Map.empty else None)\<rparr>"
  using assms by (simp add: extractFieldPaths_def map_of_constant fun_eq_iff)

section \<open>The claims about the Schema Field Finder\<close>

text \<open>
  C9: for every schema node, list of target fields and depth, the list the Finder returns
  holds each field name at most once, and every element of it is one of the target fields.
  This holds for the Finder of generate-types.ts, with any debug flag and context, and for
  the Finder of simple-generate-types.ts, with any document.
\<close>

theorem finder_result_is_a_set_of_targets:
  "(\<exists>fs lg. findFieldsInSchema h schema t depth debug ctx = Inr (fs, lg)
       \<and> distinct fs \<and> set fs \<subseteq> set t)
   \<and> (\<exists>fs. findFieldsInSchema_simple h schema t depth openApiDoc = Inr fs
       \<and> distinct fs \<and> set fs \<subseteq> set t)"
proof
  from find_yields [of h schema t depth debug ctx]
  obtain lg where "findFieldsInSchema h schema t depth debug ctx = Inr (found h schema t depth, lg)"
    by (auto dest!: yieldsE)
  then show "\<exists>fs lg. findFieldsInSchema h schema t depth debug ctx = Inr (fs, lg)
       \<and> distinct fs \<and> set fs \<subseteq> set t"
    using found_distinct found_subset by blast
next
  show "\<exists>fs. findFieldsInSchema_simple h schema t depth openApiDoc = Inr fs
       \<and> distinct fs \<and> set fs \<subseteq> set t"
    using find_simple_total found_simple_distinct found_simple_subset by blast
qed

theorem finder_result_is_a_set_of_targets_witness:
  "(\<exists>fs lg. findFieldsInSchema sample (Ref 9) [''email'', ''id''] 0 True sample_context = Inr (fs, lg)
       \<and> distinct fs \<and> set fs \<subseteq> set [''email'', ''id''])
   \<and> (\<exists>fs. findFieldsInSchema_simple sample (Ref 9) [''email'', ''id''] 0 (Ref 0) = Inr fs
       \<and> distinct fs \<and> set fs \<subseteq> set [''email'', ''id''])
   \<and> findFieldsInSchema sample (Ref 9) [''email'', ''id''] 0 True sample_context
       = Inr ([''email''], [Found sample_context ''email'' False])
   \<and> findFieldsInSchema_simple sample (Ref 9) [''email'', ''id''] 0 (Ref 0) = Inr [''email'']"
  using finder_result_is_a_set_of_targets
    [of sample "Ref 9" "[''email'', ''id'']" 0 True sample_context "Ref 0"]
  by (simp add: findFieldsInSchema.simps findFieldsInSchema_simple.simps sample_at
      sample_context_def js_eval)

text \<open>
  C10: for every schema node, list of target fields, depth, debug flag and logging context,
  the Finder returns the same fields as the run with the debug flag off and the empty
  context; the two runs differ in what they write to the console only.
\<close>

theorem finder_log_noninterference:
  "\<exists>fs lg lg'. findFieldsInSchema h schema t depth debug ctx = Inr (fs, lg)
      \<and> findFieldsInSchema h schema t depth False no_context = Inr (fs, lg')"
  using find_yields [of h schema t depth debug ctx]
    find_yields [of h schema t depth False no_context]
  by (auto dest!: yieldsE)

theorem finder_log_noninterference_witness:
  "(\<exists>fs lg lg'. findFieldsInSchema sample (Ref 9) [''email'', ''id''] 0 True sample_context = Inr (fs, lg)
      \<and> findFieldsInSchema sample (Ref 9) [''email'', ''id''] 0 False no_context = Inr (fs, lg'))
   \<and> findFieldsInSchema sample (Ref 9) [''email'', ''id''] 0 True sample_context
       = Inr ([''email''], [Found sample_context ''email'' False])
   \<and> findFieldsInSchema sample (Ref 9) [''email'', ''id''] 0 False no_context = Inr ([''email''], [])"
  using finder_log_noninterference [of sample "Ref 9" "[''email'', ''id'']" 0 True sample_context]
  by (simp add: findFieldsInSchema.simps sample_at sample_context_def no_context_def js_eval)

text \<open>
  C5: a schema node with \<open>type: "object"\<close> and none of \<open>properties\<close>,
  \<open>additionalProperties\<close> and \<open>patternProperties\<close> makes the Finder report all the target
  fields; so does a node whose \<open>additionalProperties\<close> is \<open>true\<close>, and a node with a
  \<open>discriminator\<close> that has a \<open>mapping\<close>. The node is looked at, that is, the depth is at
  most 10; a mapping that is present is an object, hence truthy.
\<close>

theorem open_schema_reports_all_targets:
  assumes s: "truthy schema" "typeof schema = ''object''" "depth \<le> 10"
    and "(get_prop h schema ''type'' = Inr (Str ''object'')
            \<and> get_prop h schema ''properties'' = Inr Undefined
            \<and> get_prop h schema ''additionalProperties'' = Inr Undefined
            \<and> get_prop h schema ''patternProperties'' = Inr Undefined)
       \<or> get_prop h schema ''additionalProperties'' = Inr (Bool True)
       \<or> (\<exists>disc mapping. get_prop h schema ''discriminator'' = Inr disc \<and> truthy disc
             \<and> get_prop h disc ''mapping'' = Inr mapping \<and> truthy mapping)"
  shows "\<exists>fs lg. findFieldsInSchema h schema t depth debug ctx = Inr (fs, lg) \<and> set fs = set t"
proof -
  let ?parts = "node_fields h (\<lambda>v. found h v t (depth + 1)) schema t"
  from assms(4) have "\<exists>i<8. ?parts ! i = t"
  proof (elim disjE conjE exE)
    assume "get_prop h schema ''type'' = Inr (Str ''object'')"
      "get_prop h schema ''properties'' = Inr Undefined"
      "get_prop h schema ''additionalProperties'' = Inr Undefined"
      "get_prop h schema ''patternProperties'' = Inr Undefined"
    then have "?parts ! 7 = t"
      by (simp add: node_fields_def get_prop_getp)
    then show ?thesis by (intro exI [of _ 7]) simp
  next
    assume "get_prop h schema ''additionalProperties'' = Inr (Bool True)"
    then have "?parts ! 3 = t"
      by (simp add: node_fields_def get_prop_getp)
    then show ?thesis by (intro exI [of _ 3]) simp
  next
    fix disc mapping
    assume "get_prop h schema ''discriminator'' = Inr disc" "truthy disc"
      "get_prop h disc ''mapping'' = Inr mapping" "truthy mapping"
    then have "?parts ! 6 = t"
      by (simp add: node_fields_def get_prop_getp)
    then show ?thesis by (intro exI [of _ 6]) simp
  qed
  then have "set (found h schema t depth) = set t"
    using found_all_targets [OF s] by blast
  with find_returns_found [of h schema t depth debug ctx] show ?thesis by blast
qed

theorem open_schema_reports_all_targets_witness:
  "truthy (Ref 50) \<and> typeof (Ref 50) = ''object'' \<and> (0::nat) \<le> 10
   \<and> get_prop sample (Ref 50) ''type'' = Inr (Str ''object'')
   \<and> get_prop sample (Ref 50) ''properties'' = Inr Undefined
   \<and> get_prop sample (Ref 50) ''additionalProperties'' = Inr Undefined
   \<and> get_prop sample (Ref 50) ''patternProperties'' = Inr Undefined
   \<and> (\<exists>fs lg. findFieldsInSchema sample (Ref 50) [''email'', ''id''] 0 False no_context = Inr (fs, lg)
        \<and> set fs = set [''email'', ''id''])
   \<and> get_prop sample (Ref 51) ''additionalProperties'' = Inr (Bool True)
   \<and> (\<exists>fs lg. findFieldsInSchema sample (Ref 51) [''email'', ''id''] 0 False no_context = Inr (fs, lg)
        \<and> set fs = set [''email'', ''id''])
   \<and> get_prop sample (Ref 52) ''discriminator'' = Inr (Ref 53)
   \<and> get_prop sample (Ref 53) ''mapping'' = Inr (Ref 54)
   \<and> (\<exists>fs lg. findFieldsInSchema sample (Ref 52) [''email'', ''id''] 0 False no_context = Inr (fs, lg)
        \<and> set fs = set [''email'', ''id''])"
proof -
  have s50: "truthy (Ref 50)" "typeof (Ref 50) = ''object''" "(0::nat) \<le> 10"
    and s51: "truthy (Ref 51)" "typeof (Ref 51) = ''object''" "(0::nat) \<le> 10"
    and s52: "truthy (Ref 52)" "typeof (Ref 52) = ''object''" "(0::nat) \<le> 10"
    by simp_all
  have shape: "get_prop sample (Ref 50) ''type'' = Inr (Str ''object'')"
    "get_prop sample (Ref 50) ''properties'' = Inr Undefined"
    "get_prop sample (Ref 50) ''additionalProperties'' = Inr Undefined"
    "get_prop sample (Ref 50) ''patternProperties'' = Inr Undefined"
    by (simp_all add: sample_at js_eval)
  have additional: "get_prop sample (Ref 51) ''additionalProperties'' = Inr (Bool True)"
    by (simp add: sample_at js_eval)
  have disc: "get_prop sample (Ref 52) ''discriminator'' = Inr (Ref 53)"
    "get_prop sample (Ref 53) ''mapping'' = Inr (Ref 54)"
    by (simp_all add: sample_at js_eval)
  from open_schema_reports_all_targets [OF s50, of sample "[''email'', ''id'']" False no_context] shape
  have free: "\<exists>fs lg. findFieldsInSchema sample (Ref 50) [''email'', ''id''] 0 False no_context = Inr (fs, lg)
        \<and> set fs = set [''email'', ''id'']"
    by blast
  from open_schema_reports_all_targets [OF s51, of sample "[''email'', ''id'']" False no_context]
    additional
  have open_additional: "\<exists>fs lg. findFieldsInSchema sample (Ref 51) [''email'', ''id''] 0 False no_context = Inr (fs, lg)
        \<and> set fs = set [''email'', ''id'']"
    by blast
  have "truthy (Ref 53)" "truthy (Ref 54)" by simp_all
  with open_schema_reports_all_targets [OF s52, of sample "[''email'', ''id'']" False no_context] disc
  have polymorphic: "\<exists>fs lg. findFieldsInSchema sample (Ref 52) [''email'', ''id''] 0 False no_context = Inr (fs, lg)
        \<and> set fs = set [''email'', ''id'']"
    by blast
  from s50 shape free additional open_additional disc polymorphic show ?thesis
    by blast
qed

text \<open>
  C6: when the \<open>properties\<close> mapping of a schema node has a target field as a key, the
  Finder's result includes the field; and the result includes what the Finder finds in
  every value of \<open>properties\<close>, in \<open>items\<close>, and in every member of \<open>allOf\<close>,
  \<open>oneOf\<close> and \<open>anyOf\<close>. The node is looked at, that is, the depth is at most 10.
\<close>

theorem property_keys_and_nested_fields_found:
  assumes s: "truthy schema" "typeof schema = ''object''" "depth \<le> 10"
  shows "\<exists>fs lg. findFieldsInSchema h schema t depth debug ctx = Inr (fs, lg)
     \<and> (\<forall>props field.
          get_prop h schema ''properties'' = Inr props \<and> truthy props \<and> typeof props = ''object''
          \<and> field \<in> set (enum_keys h props) \<and> field \<in> set t
          \<longrightarrow> field \<in> set fs)
     \<and> (\<forall>props k sub fs' lg'.
          get_prop h schema ''properties'' = Inr props \<and> truthy props \<and> typeof props = ''object''
          \<and> k \<in> set (enum_keys h props) \<and> get_prop h props k = Inr sub
          \<and> findFieldsInSchema h sub t (depth + 1) debug ctx = Inr (fs', lg')
          \<longrightarrow> set fs' \<subseteq> set fs)
     \<and> (\<forall>items fs' lg'.
          get_prop h schema ''items'' = Inr items \<and> truthy items
          \<and> findFieldsInSchema h items t (depth + 1) debug ctx = Inr (fs', lg')
          \<longrightarrow> set fs' \<subseteq> set fs)
     \<and> (\<forall>key subs subSchemas sub fs' lg'.
          key \<in> set combinedSchemas \<and> get_prop h schema key = Inr subs \<and> isArray h subs
          \<and> iterate h subs = Inr subSchemas \<and> sub \<in> set subSchemas
          \<and> findFieldsInSchema h sub t (depth + 1) debug ctx = Inr (fs', lg')
          \<longrightarrow> set fs' \<subseteq> set fs)"
proof -
  obtain lg where run: "findFieldsInSchema h schema t depth debug ctx = Inr (found h schema t depth, lg)"
    using find_returns_found by blast
  show ?thesis
  proof (intro exI conjI allI impI)
    show "findFieldsInSchema h schema t depth debug ctx = Inr (found h schema t depth, lg)"
      by (rule run)
  next
    fix props field
    assume "get_prop h schema ''properties'' = Inr props \<and> truthy props \<and> typeof props = ''object''
          \<and> field \<in> set (enum_keys h props) \<and> field \<in> set t"
    then show "field \<in> set (found h schema t depth)"
      using found_direct [OF s] by blast
  next
    fix props k sub fs' lg'
    assume a: "get_prop h schema ''properties'' = Inr props \<and> truthy props \<and> typeof props = ''object''
          \<and> k \<in> set (enum_keys h props) \<and> get_prop h props k = Inr sub
          \<and> findFieldsInSchema h sub t (depth + 1) debug ctx = Inr (fs', lg')"
    then have "fs' = found h sub t (depth + 1)" using find_fields_eq by blast
    with a show "set fs' \<subseteq> set (found h schema t depth)"
      using found_property [OF s] by blast
  next
    fix items fs' lg'
    assume a: "get_prop h schema ''items'' = Inr items \<and> truthy items
          \<and> findFieldsInSchema h items t (depth + 1) debug ctx = Inr (fs', lg')"
    then have "fs' = found h items t (depth + 1)" using find_fields_eq by blast
    with a show "set fs' \<subseteq> set (found h schema t depth)"
      using found_items [OF s] by blast
  next
    fix key subs subSchemas sub fs' lg'
    assume a: "key \<in> set combinedSchemas \<and> get_prop h schema key = Inr subs \<and> isArray h subs
          \<and> iterate h subs = Inr subSchemas \<and> sub \<in> set subSchemas
          \<and> findFieldsInSchema h sub t (depth + 1) debug ctx = Inr (fs', lg')"
    then have "fs' = found h sub t (depth + 1)" using find_fields_eq by blast
    with a show "set fs' \<subseteq> set (found h schema t depth)"
      using found_combined [OF s] by blast
  qed
qed

theorem property_keys_and_nested_fields_found_witness:
  "truthy (Ref 9) \<and> typeof (Ref 9) = ''object'' \<and> (0::nat) \<le> 10
   \<and> get_prop sample (Ref 9) ''properties'' = Inr (Ref 20)
   \<and> ''email'' \<in> set (enum_keys sample (Ref 20))
   \<and> (\<exists>fs lg. findFieldsInSchema sample (Ref 9) [''email'', ''id''] 0 False no_context = Inr (fs, lg)
        \<and> ''email'' \<in> set fs)
   \<and> get_prop sample (Ref 40) ''properties'' = Inr (Ref 41)
   \<and> get_prop sample (Ref 41) ''self'' = Inr (Ref 40)
   \<and> findFieldsInSchema sample (Ref 40) [''email'', ''id''] (0 + 1) False no_context = Inr ([''id''], [])
   \<and> (\<exists>fs lg. findFieldsInSchema sample (Ref 40) [''email'', ''id''] 0 False no_context = Inr (fs, lg)
        \<and> ''id'' \<in> set fs)
   \<and> get_prop sample (Ref 55) ''items'' = Inr (Ref 9)
   \<and> findFieldsInSchema sample (Ref 9) [''email'', ''id''] (0 + 1) False no_context = Inr ([''email''], [])
   \<and> (\<exists>fs lg. findFieldsInSchema sample (Ref 55) [''email'', ''id''] 0 False no_context = Inr (fs, lg)
        \<and> ''email'' \<in> set fs)
   \<and> get_prop sample (Ref 56) ''allOf'' = Inr (Ref 57)
   \<and> iterate sample (Ref 57) = Inr [Ref 21, Ref 9]
   \<and> (\<exists>fs lg. findFieldsInSchema sample (Ref 56) [''email'', ''id''] 0 False no_context = Inr (fs, lg)
        \<and> ''email'' \<in> set fs)"
proof -
  have s9: "truthy (Ref 9)" "typeof (Ref 9) = ''object''" "(0::nat) \<le> 10"
    and s40: "truthy (Ref 40)" "typeof (Ref 40) = ''object''" "(0::nat) \<le> 10"
    and s55: "truthy (Ref 55)" "typeof (Ref 55) = ''object''" "(0::nat) \<le> 10"
    and s56: "truthy (Ref 56)" "typeof (Ref 56) = ''object''" "(0::nat) \<le> 10"
    by simp_all
  have p: "get_prop sample (Ref 9) ''properties'' = Inr (Ref 20)"
    "''email'' \<in> set (enum_keys sample (Ref 20))"
    by (simp_all add: sample_at js_eval)
  have n: "get_prop sample (Ref 40) ''properties'' = Inr (Ref 41)"
    "''self'' \<in> set (enum_keys sample (Ref 41))"
    "get_prop sample (Ref 41) ''self'' = Inr (Ref 40)"
    "get_prop sample (Ref 55) ''items'' = Inr (Ref 9)"
    "get_prop sample (Ref 56) ''allOf'' = Inr (Ref 57)"
    "isArray sample (Ref 57)" "''allOf'' \<in> set combinedSchemas"
    "iterate sample (Ref 57) = Inr [Ref 21, Ref 9]"
    by (simp_all add: sample_at js_eval)
  have deeper:
    "findFieldsInSchema sample (Ref 40) [''email'', ''id''] (0 + 1) False no_context = Inr ([''id''], [])"
    "findFieldsInSchema sample (Ref 9) [''email'', ''id''] (0 + 1) False no_context = Inr ([''email''], [])"
    by (simp_all add: findFieldsInSchema.simps sample_at no_context_def js_eval)
  have obj: "truthy (Ref 20)" "typeof (Ref 20) = ''object''"
    "truthy (Ref 41)" "typeof (Ref 41) = ''object''" "Ref 9 \<in> set [Ref 21, Ref 9]"
    by simp_all
  from property_keys_and_nested_fields_found
    [OF s9, of sample "[''email'', ''id'']" False no_context] p obj
  have direct: "\<exists>fs lg. findFieldsInSchema sample (Ref 9) [''email'', ''id''] 0 False no_context = Inr (fs, lg)
        \<and> ''email'' \<in> set fs"
    by fastforce
  from property_keys_and_nested_fields_found
    [OF s40, of sample "[''email'', ''id'']" False no_context]
  obtain fs40 lg40 where r40:
    "findFieldsInSchema sample (Ref 40) [''email'', ''id''] 0 False no_context = Inr (fs40, lg40)"
    "\<forall>props k sub fs' lg'.
          get_prop sample (Ref 40) ''properties'' = Inr props \<and> truthy props \<and> typeof props = ''object''
          \<and> k \<in> set (enum_keys sample props) \<and> get_prop sample props k = Inr sub
          \<and> findFieldsInSchema sample sub [''email'', ''id''] (0 + 1) False no_context = Inr (fs', lg')
          \<longrightarrow> set fs' \<subseteq> set fs40"
    by (elim exE conjE) (rule that)
  from r40(2) n(1-3) obj(3,4) deeper(1) have "set [''id''] \<subseteq> set fs40"
    by blast
  with r40(1) have nested: "\<exists>fs lg. findFieldsInSchema sample (Ref 40) [''email'', ''id''] 0 False no_context = Inr (fs, lg)
        \<and> ''id'' \<in> set fs"
    by auto
  from property_keys_and_nested_fields_found
    [OF s55, of sample "[''email'', ''id'']" False no_context]
  obtain fs55 lg55 where r55:
    "findFieldsInSchema sample (Ref 55) [''email'', ''id''] 0 False no_context = Inr (fs55, lg55)"
    "\<forall>items fs' lg'.
          get_prop sample (Ref 55) ''items'' = Inr items \<and> truthy items
          \<and> findFieldsInSchema sample items [''email'', ''id''] (0 + 1) False no_context = Inr (fs', lg')
          \<longrightarrow> set fs' \<subseteq> set fs55"
    by (elim exE conjE) (rule that)
  from r55(2) n(4) s9(1) deeper(2) have "set [''email''] \<subseteq> set fs55"
    by blast
  with r55(1) have items: "\<exists>fs lg. findFieldsInSchema sample (Ref 55) [''email'', ''id''] 0 False no_context = Inr (fs, lg)
        \<and> ''email'' \<in> set fs"
    by auto
  from property_keys_and_nested_fields_found
    [OF s56, of sample "[''email'', ''id'']" False no_context]
  obtain fs56 lg56 where r56:
    "findFieldsInSchema sample (Ref 56) [''email'', ''id''] 0 False no_context = Inr (fs56, lg56)"
    "\<forall>key subs subSchemas sub fs' lg'.
          key \<in> set combinedSchemas \<and> get_prop sample (Ref 56) key = Inr subs \<and> isArray sample subs
          \<and> iterate sample subs = Inr subSchemas \<and> sub \<in> set subSchemas
          \<and> findFieldsInSchema sample sub [''email'', ''id''] (0 + 1) False no_context = Inr (fs', lg')
          \<longrightarrow> set fs' \<subseteq> set fs56"
    by (elim exE conjE) (rule that)
  from r56(2) n(5-8) obj(5) deeper(2) have "set [''email''] \<subseteq> set fs56"
    by blast
  with r56(1) have combined: "\<exists>fs lg. findFieldsInSchema sample (Ref 56) [''email'', ''id''] 0 False no_context = Inr (fs, lg)
        \<and> ''email'' \<in> set fs"
    by auto
  from s9 p direct n(1,3) deeper nested n(4) items n(5,8) combined show ?thesis
    by blast
qed

text \<open>
  C3, as it is stated, measures both Finders against the matching rules of the
  specification. Against all eleven rules it fails, by the rules a Finder does not have.
  The Finder of simple-generate-types.ts has no rule for a discriminator and none for
  patternProperties: it finds nothing in the schema at address 52, where rule 9 reports
  the targets, and nothing in the schema at address 58, where rule 8 descends to a schema
  with the property \<open>email\<close>. The Finder of generate-types.ts is handed no document and
  has no rule for a reference: it finds nothing in the schema at address 60, whose
  reference rule 11 resolves to the schema with the property \<open>email\<close>.
\<close>

theorem finder_rule_sets_counterexample:
  "findFieldsInSchema_simple sample (Ref 52) [''email'', ''id''] 0 (Ref 0) = Inr []
   \<and> discoverable all_rules sample (Ref 0) [''email'', ''id''] 0 (Ref 52) ''email''
   \<and> findFieldsInSchema_simple sample (Ref 58) [''email'', ''id''] 0 (Ref 0) = Inr []
   \<and> discoverable all_rules sample (Ref 0) [''email'', ''id''] 0 (Ref 58) ''email''
   \<and> findFieldsInSchema sample (Ref 60) [''email'', ''id''] 0 False no_context = Inr ([], [])
   \<and> discoverable all_rules sample (Ref 0) [''email'', ''id''] 0 (Ref 60) ''email''"
proof -
  have run: "findFieldsInSchema_simple sample (Ref 52) [''email'', ''id''] 0 (Ref 0) = Inr []"
    "findFieldsInSchema_simple sample (Ref 58) [''email'', ''id''] 0 (Ref 0) = Inr []"
    "findFieldsInSchema sample (Ref 60) [''email'', ''id''] 0 False no_context = Inr ([], [])"
    by (simp_all add: findFieldsInSchema.simps findFieldsInSchema_simple.simps sample_at
        no_context_def js_eval)
  have disc: "discoverable all_rules sample (Ref 0) [''email'', ''id''] 0 (Ref 52) ''email''"
    by (rule discoverable.discriminator_mapping)
       (simp_all add: all_rules_def looked_at_def is_object_def getp_def sample_at js_eval)
  have user: "discoverable all_rules sample (Ref 0) [''email'', ''id''] (Suc 0) (Ref 9) ''email''"
    by (rule discoverable.direct_key)
       (simp_all add: all_rules_def looked_at_def is_object_def getp_def sample_at js_eval)
  have under: "getp sample (getp sample (Ref 58) ''patternProperties'') ''^x-'' = Ref 9"
    by (simp add: getp_def sample_at js_eval)
  from user have "discoverable all_rules sample (Ref 0) [''email'', ''id''] (Suc 0)
      (getp sample (getp sample (Ref 58) ''patternProperties'') ''^x-'') ''email''"
    by (simp only: under)
  then have pat: "discoverable all_rules sample (Ref 0) [''email'', ''id''] 0 (Ref 58) ''email''"
    by (rule discoverable.in_patternProperties [rotated -1])
       (simp_all add: all_rules_def looked_at_def is_object_def getp_def sample_at js_eval)
  have target: "ref_target sample (Ref 0) (getp sample (Ref 60) ''$ref'') = Ref 9"
    by (simp add: ref_target_def getp_def sample_at js_eval)
  from user have "discoverable all_rules sample (Ref 0) [''email'', ''id''] (Suc 0)
      (ref_target sample (Ref 0) (getp sample (Ref 60) ''$ref'')) ''email''"
    by (simp only: target)
  then have ref: "discoverable all_rules sample (Ref 0) [''email'', ''id''] 0 (Ref 60) ''email''"
    by (rule discoverable.via_reference [rotated -1])
       (simp_all add: all_rules_def looked_at_def is_object_def getp_def sample_at js_eval)
  from run disc pat ref show ?thesis by simp
qed

text \<open>
  C3, as the code has it: the Finder counts the depth, and a call whose depth is above 10
  returns no field and descends no further. So on every heap of schema objects, also one
  where a schema reaches itself through \<open>properties.self\<close>, and for every list of targets,
  the Finder returns. The Finder of generate-types.ts returns every field that the rules of
  the specification other than rule 11 find within the depth ceiling, the Finder of
  simple-generate-types.ts every field that the rules other than 8 and 9 find; and when no
  target names a member of \<open>Object.prototype\<close> or of \<open>Array.prototype\<close>, what a Finder
  returns is exactly those fields.
\<close>

theorem finder_stops_at_depth_ceiling:
  "(depth > 10 \<longrightarrow> findFieldsInSchema h schema t depth debug ctx = Inr ([], []))
   \<and> (\<exists>fs lg. findFieldsInSchema h schema t depth debug ctx = Inr (fs, lg)
         \<and> {f. discoverable generate_types_rules h openApiDoc t depth schema f} \<subseteq> set fs
         \<and> (plain_targets t \<longrightarrow>
              set fs = {f. discoverable generate_types_rules h openApiDoc t depth schema f}))
   \<and> (depth > 10 \<longrightarrow> findFieldsInSchema_simple h schema t depth openApiDoc = Inr [])
   \<and> (\<exists>fs. findFieldsInSchema_simple h schema t depth openApiDoc = Inr fs
         \<and> {f. discoverable simple_rules h openApiDoc t depth schema f} \<subseteq> set fs
         \<and> (plain_targets t \<longrightarrow>
              set fs = {f. discoverable simple_rules h openApiDoc t depth schema f}))"
proof (intro conjI)
  show "depth > 10 \<longrightarrow> findFieldsInSchema h schema t depth debug ctx = Inr ([], [])"
    using find_leaf [of schema depth h t debug ctx] by simp
  show "depth > 10 \<longrightarrow> findFieldsInSchema_simple h schema t depth openApiDoc = Inr []"
    using find_simple_leaf [of schema depth h t openApiDoc] by simp
  obtain lg where "findFieldsInSchema h schema t depth debug ctx = Inr (found h schema t depth, lg)"
    using find_returns_found by blast
  then show "\<exists>fs lg. findFieldsInSchema h schema t depth debug ctx = Inr (fs, lg)
         \<and> {f. discoverable generate_types_rules h openApiDoc t depth schema f} \<subseteq> set fs
         \<and> (plain_targets t \<longrightarrow>
              set fs = {f. discoverable generate_types_rules h openApiDoc t depth schema f})"
    using discoverable_found [of h openApiDoc t depth schema]
      found_is_discoverable [of t h schema depth openApiDoc]
    by auto
  have "findFieldsInSchema_simple h schema t depth openApiDoc
      = Inr (found_simple h schema t depth openApiDoc)"
    using find_simple_total [of h schema t depth openApiDoc] by simp
  then show "\<exists>fs. findFieldsInSchema_simple h schema t depth openApiDoc = Inr fs
         \<and> {f. discoverable simple_rules h openApiDoc t depth schema f} \<subseteq> set fs
         \<and> (plain_targets t \<longrightarrow>
              set fs = {f. discoverable simple_rules h openApiDoc t depth schema f})"
    using discoverable_found_simple [of h openApiDoc t depth schema]
      found_simple_is_discoverable [of t h schema depth openApiDoc]
    by auto
qed

theorem finder_stops_at_depth_ceiling_witness:
  "(11::nat) > 10 \<and> plain_targets [''email'', ''id'']
   \<and> findFieldsInSchema sample (Ref 40) [''email'', ''id''] 11 False no_context = Inr ([], [])
   \<and> findFieldsInSchema_simple sample (Ref 40) [''email'', ''id''] 11 (Ref 0) = Inr []
   \<and> get_prop sample (Ref 40) ''properties'' = Inr (Ref 41)
   \<and> get_prop sample (Ref 41) ''self'' = Inr (Ref 40)
   \<and> findFieldsInSchema sample (Ref 40) [''email'', ''id''] 0 False no_context = Inr ([''id''], [])
   \<and> findFieldsInSchema_simple sample (Ref 40) [''email'', ''id''] 0 (Ref 0) = Inr [''id'']
   \<and> {f. discoverable generate_types_rules sample (Ref 0) [''email'', ''id''] 0 (Ref 40) f} = {''id''}
   \<and> {f. discoverable simple_rules sample (Ref 0) [''email'', ''id''] 0 (Ref 40) f} = {''id''}"
proof -
  have pt: "plain_targets [''email'', ''id'']"
    by (simp add: plain_targets_def Object_prototype_def Array_prototype_def)
  have run: "findFieldsInSchema sample (Ref 40) [''email'', ''id''] 0 False no_context = Inr ([''id''], [])"
    "findFieldsInSchema_simple sample (Ref 40) [''email'', ''id''] 0 (Ref 0) = Inr [''id'']"
    by (simp_all add: findFieldsInSchema.simps findFieldsInSchema_simple.simps sample_at
        no_context_def js_eval)
  have self: "get_prop sample (Ref 40) ''properties'' = Inr (Ref 41)"
    "get_prop sample (Ref 41) ''self'' = Inr (Ref 40)"
    by (simp_all add: sample_at js_eval)
  from finder_stops_at_depth_ceiling
      [of 0 sample "Ref 40" "[''email'', ''id'']" False no_context "Ref 0"] pt
  obtain fs lg fs' where
    "findFieldsInSchema sample (Ref 40) [''email'', ''id''] 0 False no_context = Inr (fs, lg)"
    "set fs = {f. discoverable generate_types_rules sample (Ref 0) [''email'', ''id''] 0 (Ref 40) f}"
    "findFieldsInSchema_simple sample (Ref 40) [''email'', ''id''] 0 (Ref 0) = Inr fs'"
    "set fs' = {f. discoverable simple_rules sample (Ref 0) [''email'', ''id''] 0 (Ref 40) f}"
    by blast
  with run have
    "set [''id''] = {f. discoverable generate_types_rules sample (Ref 0) [''email'', ''id''] 0 (Ref 40) f}"
    "set [''id''] = {f. discoverable simple_rules sample (Ref 0) [''email'', ''id''] 0 (Ref 40) f}"
    by simp_all
  then have found:
    "{f. discoverable generate_types_rules sample (Ref 0) [''email'', ''id''] 0 (Ref 40) f} = {''id''}"
    "{f. discoverable simple_rules sample (Ref 0) [''email'', ''id''] 0 (Ref 40) f} = {''id''}"
    by (simp_all only: list.set)
  from finder_stops_at_depth_ceiling
      [of 11 sample "Ref 40" "[''email'', ''id'']" False no_context "Ref 0"]
  have stop: "findFieldsInSchema sample (Ref 40) [''email'', ''id''] 11 False no_context = Inr ([], [])"
    "findFieldsInSchema_simple sample (Ref 40) [''email'', ''id''] 11 (Ref 0) = Inr []"
    by simp_all
  from pt run self found stop show ?thesis by simp
qed

text \<open>
  C4: the Finder that is given the document never throws, whatever its input. At a schema
  node that carries a \<open>$ref\<close> string (a reference, so not the empty string: the code tests
  \<open>schema.$ref\<close> for truthiness) it splits the reference into segments and walks the
  document along them; the walk ends at the first value that is not truthy. When every
  segment resolves, the Finder's result holds what it finds at the resolved node, one level
  deeper, before what the other rules push; when a segment fails to resolve, the result is
  what the other rules push, and nothing is thrown.
\<close>

theorem reference_resolution_never_throws:
  "(\<exists>fs. findFieldsInSchema_simple h schema t depth openApiDoc = Inr fs)
   \<and> (looked_at schema depth \<and> get_prop h schema ''$ref'' = Inr (Str ref) \<and> ref \<noteq> []
        \<and> truthy openApiDoc
      \<longrightarrow> (\<exists>resolved.
             walk h openApiDoc (split_on CHR ''/'' (replace_first ''#/'' [] ref)) = Inr resolved
             \<and> (truthy resolved \<longrightarrow>
                  (\<exists>nestedFields.
                     findFieldsInSchema_simple h resolved t (depth + 1) openApiDoc = Inr nestedFields
                     \<and> findFieldsInSchema_simple h schema t depth openApiDoc
                         = Inr (new_Set (nestedFields
                                  @ other_rules_simple h schema t depth openApiDoc))))
             \<and> (\<not> truthy resolved \<longrightarrow>
                  findFieldsInSchema_simple h schema t depth openApiDoc
                    = Inr (new_Set (other_rules_simple h schema t depth openApiDoc)))))"
proof (intro conjI impI)
  show "\<exists>fs. findFieldsInSchema_simple h schema t depth openApiDoc = Inr fs"
    using find_simple_total by blast
next
  assume a: "looked_at schema depth \<and> get_prop h schema ''$ref'' = Inr (Str ref) \<and> ref \<noteq> []
        \<and> truthy openApiDoc"
  then obtain resolved where
    w: "walk h openApiDoc (split_on CHR ''/'' (replace_first ''#/'' [] ref)) = Inr resolved"
    using walk_returns by blast
  from a w have eq: "found_simple h schema t depth openApiDoc =
           new_Set ((if truthy resolved then found_simple h resolved t (depth + 1) openApiDoc else [])
                    @ other_rules_simple h schema t depth openApiDoc)"
    using found_simple_with_reference by blast
  show "\<exists>resolved.
             walk h openApiDoc (split_on CHR ''/'' (replace_first ''#/'' [] ref)) = Inr resolved
             \<and> (truthy resolved \<longrightarrow>
                  (\<exists>nestedFields.
                     findFieldsInSchema_simple h resolved t (depth + 1) openApiDoc = Inr nestedFields
                     \<and> findFieldsInSchema_simple h schema t depth openApiDoc
                         = Inr (new_Set (nestedFields
                                  @ other_rules_simple h schema t depth openApiDoc))))
             \<and> (\<not> truthy resolved \<longrightarrow>
                  findFieldsInSchema_simple h schema t depth openApiDoc
                    = Inr (new_Set (other_rules_simple h schema t depth openApiDoc)))"
  proof (intro exI [of _ resolved] conjI impI)
    show "walk h openApiDoc (split_on CHR ''/'' (replace_first ''#/'' [] ref)) = Inr resolved"
      by (rule w)
  next
    assume "truthy resolved"
    with eq show "\<exists>nestedFields.
        findFieldsInSchema_simple h resolved t (depth + 1) openApiDoc = Inr nestedFields
        \<and> findFieldsInSchema_simple h schema t depth openApiDoc
            = Inr (new_Set (nestedFields @ other_rules_simple h schema t depth openApiDoc))"
      by (intro exI [of _ "found_simple h resolved t (depth + 1) openApiDoc"])
         (simp add: find_simple_total)
  next
    assume "\<not> truthy resolved"
    with eq show "findFieldsInSchema_simple h schema t depth openApiDoc
        = Inr (new_Set (other_rules_simple h schema t depth openApiDoc))"
      by (simp add: find_simple_total)
  qed
qed

theorem reference_resolution_never_throws_witness:
  "looked_at (Ref 60) 0 \<and> get_prop sample (Ref 60) ''$ref'' = Inr (Str ''#/components/schemas/User'')
   \<and> truthy (Ref 0)
   \<and> walk sample (Ref 0) (split_on CHR ''/'' (replace_first ''#/'' [] ''#/components/schemas/User''))
       = Inr (Ref 9)
   \<and> findFieldsInSchema_simple sample (Ref 9) [''email'', ''id''] 1 (Ref 0) = Inr [''email'']
   \<and> findFieldsInSchema_simple sample (Ref 60) [''email'', ''id''] 0 (Ref 0) = Inr [''email'']
   \<and> looked_at (Ref 61) 0 \<and> get_prop sample (Ref 61) ''$ref'' = Inr (Str ''#/components/schemas/Missing'')
   \<and> walk sample (Ref 0) (split_on CHR ''/'' (replace_first ''#/'' [] ''#/components/schemas/Missing''))
       = Inr Undefined
   \<and> findFieldsInSchema_simple sample (Ref 61) [''email'', ''id''] 0 (Ref 0) = Inr []
   \<and> findFieldsInSchema_simple sample (Ref 61) [''email'', ''id''] 0 (Ref 0)
       = Inr (new_Set (other_rules_simple sample (Ref 61) [''email'', ''id''] 0 (Ref 0)))"
  using reference_resolution_never_throws
      [of sample "Ref 60" "[''email'', ''id'']" 0 "Ref 0" "''#/components/schemas/User''"]
    reference_resolution_never_throws
      [of sample "Ref 61" "[''email'', ''id'']" 0 "Ref 0" "''#/components/schemas/Missing''"]
  by (simp add: findFieldsInSchema_simple.simps sample_at js_eval looked_at_def is_object_def)

section \<open>The claims about the Path Grouper and the Operation Scanner\<close>

text \<open>
  C1: in the Operation Scanner, a field found in an operation whose \<open>tags\<close> is absent or an
  empty sequence puts the path into the field's bucket of the default group, and an
  operation with tags puts it into the bucket of each tag. The sample document shows where
  the code departs from this: the GET operation of \<open>/a\<close> has the empty list of tags, the
  field \<open>email\<close> is found in its response, \<open>/a\<close> is in \<open>fieldPaths.email\<close>, and yet
  \<open>groupFieldPaths.email\<close> has no \<open>default\<close> bucket: in \<open>operation.tags || [DEFAULT_GROUP]\<close> an
  empty array is truthy. The Path Grouper, which tests the length, puts \<open>/a\<close> into
  \<open>default\<close>.
\<close>

theorem empty_tags_reach_no_group:
  "\<exists>r gm gp. extractResponseFieldPaths sample (Ref 0) [''email''] = Inr r
     \<and> get_prop sample (Ref 11) ''tags'' = Inr (Ref 12) \<and> sample 12 = Arr []
     \<and> fieldPaths r ''email'' = Some [''/a'', ''/login'']
     \<and> groupFieldPaths r ''email'' = Some gm
     \<and> gm ''default'' = None \<and> gm ''auth'' = Some [''/login''] \<and> gm ''users'' = Some [''/login'']
     \<and> extractGroupPaths sample (Ref 0) = Inr gp \<and> gp ''default'' = Some [''/a'']"
proof -
  have "get_prop sample (Ref 11) ''tags'' = Inr (Ref 12)" "sample 12 = Arr []"
    by (simp_all add: sample_at js_eval)
  with sample_response_scan sample_group_scan show ?thesis
    by blast
qed

text \<open>
  C2, as the code has it: for a document whose \<open>paths\<close> is absent (or not truthy) the Path
  Grouper returns the empty mapping, and the Operation Scanner, in either mode, returns
  \<open>fieldPaths\<close> with every requested field mapped to the empty list and
  \<open>groupFieldPaths\<close> with every requested field mapped to the empty mapping.
\<close>

theorem no_paths_gives_empty_results:
  assumes "get_prop h openApi ''paths'' = Inr paths" "\<not> truthy paths"
  shows "extractGroupPaths h openApi = Inr Map.empty
     \<and> extractResponseFieldPaths h openApi t =
         Inr \<lparr>fieldPaths = (\<lambda>field. if field \<in> set t then Some [] else None),
              groupFieldPaths = (\<lambda>field. if field \<in> set t then Some Map.empty else None)\<rparr>
     \<and> extractRequestFieldPaths h openApi t =
         Inr \<lparr>fieldPaths = (\<lambda>field. if field \<in> set t then Some [] else None),
              groupFieldPaths = (\<lambda>field. if field \<in> set t then Some Map.empty else None)\<rparr>"
  using assms extractFieldPaths_no_paths [OF assms]
  by (simp add: extractGroupPaths_def extractResponseFieldPaths_def extractRequestFieldPaths_def)

theorem no_paths_gives_empty_results_witness:
  "get_prop sample (Ref 70) ''paths'' = Inr Undefined \<and> \<not> truthy Undefined
   \<and> extractGroupPaths sample (Ref 70) = Inr Map.empty
   \<and> extractResponseFieldPaths sample (Ref 70) [''email''] =
       Inr \<lparr>fieldPaths = (\<lambda>field. if field \<in> set [''email''] then Some [] else None),
            groupFieldPaths = (\<lambda>field. if field \<in> set [''email''] then Some Map.empty else None)\<rparr>
   \<and> extractRequestFieldPaths sample (Ref 70) [''email''] =
       Inr \<lparr>fieldPaths = (\<lambda>field. if field \<in> set [''email''] then Some [] else None),
            groupFieldPaths = (\<lambda>field. if field \<in> set [''email''] then Some Map.empty else None)\<rparr>"
proof -
  have p: "get_prop sample (Ref 70) ''paths'' = Inr Undefined" "\<not> truthy Undefined"
    by (simp_all add: sample_at js_eval)
  from no_paths_gives_empty_results [OF p, of "[''email'']"] p show ?thesis
    by blast
qed

text \<open>
  C2, as it is stated, asks for \<open>groupFieldPaths\<close> to be the empty mapping. For the sample
  document without paths and the target \<open>email\<close> it is not: it has the key \<open>email\<close>.
\<close>

theorem no_paths_groupFieldPaths_counterexample:
  "\<not> isl (extractResponseFieldPaths sample (Ref 70) [''email''])
   \<and> groupFieldPaths (projr (extractResponseFieldPaths sample (Ref 70) [''email''])) ''email'' \<noteq> None
   \<and> groupFieldPaths (projr (extractResponseFieldPaths sample (Ref 70) [''email''])) \<noteq> Map.empty"
proof -
  have p: "get_prop sample (Ref 70) ''paths'' = Inr Undefined" "\<not> truthy Undefined"
    by (simp_all add: sample_at js_eval)
  have run: "extractResponseFieldPaths sample (Ref 70) [''email''] =
       Inr \<lparr>fieldPaths = (\<lambda>field. if field \<in> set [''email''] then Some [] else None),
            groupFieldPaths = (\<lambda>field. if field \<in> set [''email''] then Some Map.empty else None)\<rparr>"
    unfolding extractResponseFieldPaths_def by (rule extractFieldPaths_no_paths [OF p])
  have "groupFieldPaths (projr (extractResponseFieldPaths sample (Ref 70) [''email''])) ''email'' \<noteq> None"
    by (simp add: run)
  moreover have "groupFieldPaths (projr (extractResponseFieldPaths sample (Ref 70) [''email''])) \<noteq> Map.empty"
  proof
    assume "groupFieldPaths (projr (extractResponseFieldPaths sample (Ref 70) [''email''])) = Map.empty"
    then have "groupFieldPaths (projr (extractResponseFieldPaths sample (Ref 70) [''email''])) ''email'' = None"
      by (simp only:)
    with calculation show False by simp
  qed
  ultimately show ?thesis
    by (simp add: run)
qed

text \<open>
  C7: an operation with several tags puts the path into the field's bucket of every one of
  its tags. The code aims at this, and a scan that returns has done it
  (\<open>response_scan_reaches\<close>). But a scan need not return: the buckets of a field are the
  properties of a plain object, and for a tag that names a member of \<open>Object.prototype\<close>
  the test \<open>!groupFieldPaths[foundField][group]\<close> reads the inherited member, finds it
  truthy and stores no set, and the call of \<open>add\<close> on it throws. In the document at address
  80 the POST operation of \<open>/login\<close> is tagged \<open>auth\<close> and \<open>toString\<close> and the Finder finds
  \<open>email\<close> in its response: the scan throws a \<open>TypeError\<close>, and \<open>/login\<close> reaches neither
  bucket. The Path Grouper, which fills its record in the same way, throws as well.
\<close>

theorem prototype_named_tag_throws:
  "get_prop sample (Ref 83) ''tags'' = Inr (Ref 84)
   \<and> iterate sample (Ref 84) = Inr [Str ''auth'', Str ''toString'']
   \<and> findFieldsInSchema sample (Ref 9) [''email''] 0 True sample_context
       = Inr ([''email''], [Found sample_context ''email'' False])
   \<and> extractResponseFieldPaths sample (Ref 80) [''email''] = Inl TypeError
   \<and> extractGroupPaths sample (Ref 80) = Inl TypeError"
proof -
  have tags: "get_prop sample (Ref 83) ''tags'' = Inr (Ref 84)"
    "iterate sample (Ref 84) = Inr [Str ''auth'', Str ''toString'']"
    by (simp_all add: sample_at js_eval)
  have email: "findFieldsInSchema sample (Ref 9) [''email''] 0 True sample_context
       = Inr ([''email''], [Found sample_context ''email'' False])"
    by (simp add: findFieldsInSchema.simps sample_at sample_context_def js_eval)
  have scan: "extractResponseFieldPaths sample (Ref 80) [''email''] = Inl TypeError"
    by (simp add: scan_eval findFieldsInSchema.simps sample_at js_eval)
  have grouper: "extractGroupPaths sample (Ref 80) = Inl TypeError"
    by (simp add: scan_eval sample_at js_eval)
  from tags email scan grouper show ?thesis by simp
qed

text \<open>
  C8: every list of paths in the outputs of the Path Grouper and of the Operation Scanner
  (the list of a group, the list of a field, the list of a field and a group) is sorted
  lexicographically and has no duplicate. Such a list is the sorted enumeration of the set
  of its paths, so it does not depend on the order in which the paths were inserted.
\<close>

theorem output_lists_sorted_without_duplicates:
  "(extractGroupPaths h openApi = Inr gp \<and> gp g = Some ps
      \<longrightarrow> sorted ps \<and> distinct ps \<and> ps = sorted_list_of_set (set ps))
   \<and> (extractResponseFieldPaths h openApi t = Inr r \<longrightarrow>
        (fieldPaths r field = Some ps
           \<longrightarrow> sorted ps \<and> distinct ps \<and> ps = sorted_list_of_set (set ps))
        \<and> (groupFieldPaths r field = Some gm \<and> gm g = Some ps
           \<longrightarrow> sorted ps \<and> distinct ps \<and> ps = sorted_list_of_set (set ps)))
   \<and> (extractRequestFieldPaths h openApi t = Inr r \<longrightarrow>
        (fieldPaths r field = Some ps
           \<longrightarrow> sorted ps \<and> distinct ps \<and> ps = sorted_list_of_set (set ps))
        \<and> (groupFieldPaths r field = Some gm \<and> gm g = Some ps
           \<longrightarrow> sorted ps \<and> distinct ps \<and> ps = sorted_list_of_set (set ps)))"
proof -
  have grouper: "extractGroupPaths h openApi = Inr gp \<and> gp g = Some ps
      \<longrightarrow> sorted ps \<and> distinct ps \<and> ps = sorted_list_of_set (set ps)"
    using extractGroupPaths_sorted by blast
  have response: "extractResponseFieldPaths h openApi t = Inr r \<longrightarrow>
        (fieldPaths r field = Some ps
           \<longrightarrow> sorted ps \<and> distinct ps \<and> ps = sorted_list_of_set (set ps))
        \<and> (groupFieldPaths r field = Some gm \<and> gm g = Some ps
           \<longrightarrow> sorted ps \<and> distinct ps \<and> ps = sorted_list_of_set (set ps))"
  proof
    assume "extractResponseFieldPaths h openApi t = Inr r"
    then have run: "extractFieldPaths h (response_method h t) openApi t = Inr r"
      by (simp add: extractResponseFieldPaths_def)
    show "(fieldPaths r field = Some ps
           \<longrightarrow> sorted ps \<and> distinct ps \<and> ps = sorted_list_of_set (set ps))
        \<and> (groupFieldPaths r field = Some gm \<and> gm g = Some ps
           \<longrightarrow> sorted ps \<and> distinct ps \<and> ps = sorted_list_of_set (set ps))"
      by (rule extractFieldPaths_sorted [OF run response_method_distinct])
  qed
  have request: "extractRequestFieldPaths h openApi t = Inr r \<longrightarrow>
        (fieldPaths r field = Some ps
           \<longrightarrow> sorted ps \<and> distinct ps \<and> ps = sorted_list_of_set (set ps))
        \<and> (groupFieldPaths r field = Some gm \<and> gm g = Some ps
           \<longrightarrow> sorted ps \<and> distinct ps \<and> ps = sorted_list_of_set (set ps))"
  proof
    assume "extractRequestFieldPaths h openApi t = Inr r"
    then have run: "extractFieldPaths h (request_method h t) openApi t = Inr r"
      by (simp add: extractRequestFieldPaths_def)
    show "(fieldPaths r field = Some ps
           \<longrightarrow> sorted ps \<and> distinct ps \<and> ps = sorted_list_of_set (set ps))
        \<and> (groupFieldPaths r field = Some gm \<and> gm g = Some ps
           \<longrightarrow> sorted ps \<and> distinct ps \<and> ps = sorted_list_of_set (set ps))"
      by (rule extractFieldPaths_sorted [OF run request_method_distinct])
  qed
  from grouper response request show ?thesis by (intro conjI)
qed

theorem output_lists_sorted_without_duplicates_witness:
  "\<exists>r gp gm. extractGroupPaths sample (Ref 0) = Inr gp \<and> gp ''auth'' = Some [''/login'']
     \<and> extractResponseFieldPaths sample (Ref 0) [''email''] = Inr r
     \<and> fieldPaths r ''email'' = Some [''/a'', ''/login'']
     \<and> groupFieldPaths r ''email'' = Some gm \<and> gm ''auth'' = Some [''/login'']
     \<and> sorted [''/a'', ''/login''] \<and> distinct [''/a'', ''/login'']
     \<and> [''/a'', ''/login''] = sorted_list_of_set (set [''/a'', ''/login''])
     \<and> sorted [''/login''] \<and> distinct [''/login'']"
proof -
  from sample_response_scan obtain r gm where
    r: "extractResponseFieldPaths sample (Ref 0) [''email''] = Inr r"
      "fieldPaths r ''email'' = Some [''/a'', ''/login'']"
      "groupFieldPaths r ''email'' = Some gm" "gm ''auth'' = Some [''/login'']"
    by blast
  from sample_group_scan obtain gp where
    gp: "extractGroupPaths sample (Ref 0) = Inr gp" "gp ''auth'' = Some [''/login'']"
    by blast
  from output_lists_sorted_without_duplicates
    [of sample "Ref 0" gp "''auth''" "[''/login'']" "[''email'']" r "''email''" gm] gp r
  have "sorted [''/login''] \<and> distinct [''/login'']"
    by blast
  moreover from output_lists_sorted_without_duplicates
    [of sample "Ref 0" gp "''auth''" "[''/a'', ''/login'']" "[''email'']" r "''email''" gm] r
  have "sorted [''/a'', ''/login''] \<and> distinct [''/a'', ''/login'']
     \<and> [''/a'', ''/login''] = sorted_list_of_set (set [''/a'', ''/login''])"
    by blast
  ultimately show ?thesis
    using r gp by blast
qed

end
